theory Spec2Isabelle
  imports Main
begin

section \<open>The BML tree: bml.go, Node and Document\<close>

text \<open>
  A shallow embedding of the Go package \<^verbatim>\<open>bml\<close> (file \<^verbatim>\<open>bml.go\<close>). A Go string is a
  sequence of bytes, here a \<^typ>\<open>string\<close> (a list of 8-bit characters). The struct
  \<^verbatim>\<open>Node\<close> has the fields Name, Value and Children; it is recursive, hence a datatype
  with selectors of the same names. A \<^verbatim>\<open>*Node\<close> that may be nil is an option.
  Every node owns its children (the parser and \<^verbatim>\<open>Set\<close> only ever append fresh nodes), so
  a mutation through a pointer is modelled by returning the updated tree.
\<close>

datatype Node = Node (Name: string) (Value: string) (Children: "Node list")

datatype Document = Document (Root: "Node option")

text \<open>
  The four errors the parser builds with \<^verbatim>\<open>errors.New\<close> and \<^verbatim>\<open>fmt.Errorf\<close>; the last three
  carry the offending line, as the messages do.
\<close>

datatype error =
    UnexpectedEndOfInput
  | InvalidIndentation string
  | InvalidNodeName string
  | UnclosedQuote string

definition LF :: char where "LF = CHR 0x0A"
definition CR :: char where "CR = CHR 0x0D"
definition TAB :: char where "TAB = CHR 0x09"
definition SP :: char where "SP = CHR 0x20"
definition DQ :: char where "DQ = CHR 0x22"

section \<open>Go's string primitives\<close>

text \<open>\<^verbatim>\<open>s[a:b]\<close>; every use in bml.go has \<open>a \<le> b \<le> len(s)\<close>.\<close>

definition slice :: "string \<Rightarrow> nat \<Rightarrow> nat \<Rightarrow> string" where
  "slice s a b = take (b - a) (drop a s)"

definition HasPrefix :: "string \<Rightarrow> string \<Rightarrow> bool" where
  "HasPrefix s p = (take (length p) s = p)"

definition TrimPrefix :: "string \<Rightarrow> string \<Rightarrow> string" where
  "TrimPrefix s p = (if HasPrefix s p then drop (length p) s else s)"

text \<open>\<^verbatim>\<open>strings.TrimLeft\<close> and \<^verbatim>\<open>strings.TrimRight\<close>, the cutset given as a predicate.\<close>

definition TrimLeft :: "string \<Rightarrow> (char \<Rightarrow> bool) \<Rightarrow> string" where
  "TrimLeft s cutset = dropWhile cutset s"

definition TrimRight :: "string \<Rightarrow> (char \<Rightarrow> bool) \<Rightarrow> string" where
  "TrimRight s cutset = rev (dropWhile cutset (rev s))"

definition Contains :: "string \<Rightarrow> char \<Rightarrow> bool" where
  "Contains s c = (c \<in> set s)"

text \<open>
  \<^verbatim>\<open>strings.ReplaceAll(s, old, new)\<close> for a non-empty \<^verbatim>\<open>old\<close> (the only use in bml.go):
  the non-overlapping occurrences are replaced from the left.
\<close>

function ReplaceAll :: "string \<Rightarrow> string \<Rightarrow> string \<Rightarrow> string" where
  "ReplaceAll s old new =
    (if s = [] \<or> old = [] then s
     else if HasPrefix s old then new @ ReplaceAll (drop (length old) s) old new
     else hd s # ReplaceAll (tl s) old new)"
  by pat_completeness auto
termination
  by (relation "measure (\<lambda>(s, old, new). length s)") auto

declare ReplaceAll.simps [simp del]

text \<open>\<^verbatim>\<open>strings.Split(s, sep)\<close> for a one-byte separator: never the empty list.\<close>

fun Split :: "string \<Rightarrow> char \<Rightarrow> string list" where
  "Split [] sep = [[]]"
| "Split (c # cs) sep =
    (if c = sep then [] # Split cs sep
     else (case Split cs sep of [] \<Rightarrow> [[c]] | p # ps \<Rightarrow> (c # p) # ps))"

text \<open>
  \<^verbatim>\<open>strings.TrimSpace\<close> removes the leading and trailing runes for which
  \<^verbatim>\<open>unicode.IsSpace\<close> holds. On bytes these are the UTF-8 encodings of U+0009..U+000D,
  U+0020, U+0085, U+00A0, U+1680, U+2000..U+200A, U+2028, U+2029, U+202F, U+205F and
  U+3000; a byte that starts no valid encoding decodes to U+FFFD, which is no space.
\<close>

fun isSpaceRune :: "nat list \<Rightarrow> bool" where
  "isSpaceRune [a] = (a = 0x09 \<or> a = 0x0A \<or> a = 0x0B \<or> a = 0x0C \<or> a = 0x0D \<or> a = 0x20)"
| "isSpaceRune [a, b] = (a = 0xC2 \<and> (b = 0x85 \<or> b = 0xA0))"
| "isSpaceRune [a, b, c] =
    ((a = 0xE1 \<and> b = 0x9A \<and> c = 0x80) \<or>
     (a = 0xE2 \<and> b = 0x80 \<and> ((0x80 \<le> c \<and> c \<le> 0x8A) \<or> c = 0xA8 \<or> c = 0xA9 \<or> c = 0xAF)) \<or>
     (a = 0xE2 \<and> b = 0x81 \<and> c = 0x9F) \<or>
     (a = 0xE3 \<and> b = 0x80 \<and> c = 0x80))"
| "isSpaceRune _ = False"

definition leadingSpace :: "string \<Rightarrow> nat" where
  "leadingSpace s =
    (if isSpaceRune (map of_char (take 1 s)) then 1
     else if isSpaceRune (map of_char (take 2 s)) then 2
     else if isSpaceRune (map of_char (take 3 s)) then 3 else 0)"

definition trailingSpace :: "string \<Rightarrow> nat" where
  "trailingSpace s =
    (if isSpaceRune (map of_char (drop (length s - 1) s)) then 1
     else if isSpaceRune (map of_char (drop (length s - 2) s)) then 2
     else if isSpaceRune (map of_char (drop (length s - 3) s)) then 3 else 0)"

lemma leadingSpace_le: "leadingSpace s \<le> length s"
  by (cases s; cases "tl s"; cases "tl (tl s)") (auto simp: leadingSpace_def)

lemma trailingSpace_le: "trailingSpace s \<le> length s"
  by (cases s; cases "tl s"; cases "tl (tl s)") (auto simp: trailingSpace_def)

function TrimLeftSpace :: "string \<Rightarrow> string" where
  "TrimLeftSpace s = (if leadingSpace s = 0 then s else TrimLeftSpace (drop (leadingSpace s) s))"
  by pat_completeness auto
termination
proof (relation "measure length", goal_cases)
  case 1
  then show ?case by simp
next
  case (2 s)
  then show ?case using leadingSpace_le [of s] by simp
qed

function TrimRightSpace :: "string \<Rightarrow> string" where
  "TrimRightSpace s =
    (if trailingSpace s = 0 then s else TrimRightSpace (take (length s - trailingSpace s) s))"
  by pat_completeness auto
termination
proof (relation "measure length", goal_cases)
  case 1
  then show ?case by simp
next
  case (2 s)
  then show ?case using trailingSpace_le [of s] by simp
qed

declare TrimLeftSpace.simps [simp del] TrimRightSpace.simps [simp del]

definition TrimSpace :: "string \<Rightarrow> string" where
  "TrimSpace s = TrimRightSpace (TrimLeftSpace s)"

text \<open>
  The scanning loops of bml.go all have the shape
  \<^verbatim>\<open>for i < len(line) && go(i) { i++ }\<close>; \<open>advance go n i\<close> is the index where the loop stops.
\<close>

function advance :: "(nat \<Rightarrow> bool) \<Rightarrow> nat \<Rightarrow> nat \<Rightarrow> nat" where
  "advance go n i = (if i < n \<and> go i then advance go n (i + 1) else i)"
  by pat_completeness auto
termination
  by (relation "measure (\<lambda>(go, n, i). n - i)") auto

declare advance.simps [simp del]

section \<open>Line normalisation: normalizeLines, readDepth, isValidNameChar\<close>

text \<open>
  \<^verbatim>\<open>readDepth\<close> ranges over the runes of the line and counts the leading tabs and spaces.
  Both are one byte long and no other rune equals them, so the count is that of the
  leading bytes.
\<close>

definition readDepth :: "string \<Rightarrow> nat" where
  "readDepth line = length (takeWhile (\<lambda>c. c = TAB \<or> c = SP) line)"

definition isValidNameChar :: "char \<Rightarrow> bool" where
  "isValidNameChar c =
    (let n = (of_char c :: nat) in
     (65 \<le> n \<and> n \<le> 90) \<or> (97 \<le> n \<and> n \<le> 122) \<or> (48 \<le> n \<and> n \<le> 57) \<or>
     c = CHR ''-'' \<or> c = CHR ''.'')"

text \<open>The body of the loop of \<^verbatim>\<open>normalizeLines\<close>: whether a raw line is appended.\<close>

definition keepLine :: "string \<Rightarrow> bool" where
  "keepLine line =
    (if TrimSpace line = [] then False
     else (let depth = readDepth line; rest = drop depth line in
           if HasPrefix rest ''//'' then False else True))"

definition normalizeLines :: "string \<Rightarrow> string list" where
  "normalizeLines input =
    (let input1 = ReplaceAll input [CR, LF] [LF];
         input2 = ReplaceAll input1 [CR] [LF];
         rawLines = Split input2 LF
     in filter keepLine rawLines)"

lemma advance_ge: "i \<le> advance go n i"
proof (induction go n i rule: advance.induct)
  case (1 go n i)
  then show ?case by (subst advance.simps) auto
qed

lemma advance_le: "i \<le> n \<Longrightarrow> advance go n i \<le> n"
proof (induction go n i rule: advance.induct)
  case (1 go n i)
  then show ?case by (subst advance.simps) auto
qed

lemma advance_ge2: "i \<le> j \<Longrightarrow> i \<le> advance go n j"
  using advance_ge [of j go n] by simp

text \<open>The scanning loops of \<^verbatim>\<open>parseNode\<close> and \<^verbatim>\<open>parseValue\<close>, and the test for \<^verbatim>\<open>//\<close>.\<close>

definition scanName :: "string \<Rightarrow> nat \<Rightarrow> nat" where
  "scanName line pos = advance (\<lambda>i. isValidNameChar (line ! i)) (length line) pos"

definition skipSpaces :: "string \<Rightarrow> nat \<Rightarrow> nat" where
  "skipSpaces line pos = advance (\<lambda>i. line ! i = SP) (length line) pos"

definition atComment :: "string \<Rightarrow> nat \<Rightarrow> bool" where
  "atComment line pos = (pos + 1 < length line \<and> slice line pos (pos + 2) = ''//'')"

definition scanComment :: "string \<Rightarrow> nat \<Rightarrow> nat" where
  "scanComment line pos = advance (\<lambda>e. \<not> atComment line e) (length line) pos"

definition scanQuote :: "string \<Rightarrow> nat \<Rightarrow> nat" where
  "scanQuote line pos = advance (\<lambda>e. line ! e \<noteq> DQ) (length line) pos"

definition scanUnquoted :: "string \<Rightarrow> nat \<Rightarrow> nat" where
  "scanUnquoted line pos = advance (\<lambda>e. line ! e \<noteq> SP \<and> line ! e \<noteq> DQ) (length line) pos"

section \<open>The value parser: parseValue\<close>

text \<open>
  \<^verbatim>\<open>parseValue(line, pos)\<close> returns the value and the new position, or the error (the
  callers drop the other two results when the error is set).
\<close>

definition parseValue :: "string \<Rightarrow> nat \<Rightarrow> error + (string \<times> nat)" where
  "parseValue line pos =
    (if pos \<ge> length line then Inr ([], pos)
     else if line ! pos = CHR '':'' then
       (let pos1 = pos + 1;
            pos2 = (if pos1 < length line \<and> line ! pos1 = SP then pos1 + 1 else pos1);
            end = scanComment line pos2
        in Inr (TrimRight (slice line pos2 end) (\<lambda>c. c = SP), end))
     else if line ! pos = CHR ''='' then
       (let pos1 = pos + 1 in
        if pos1 \<ge> length line then Inr ([], pos1)
        else if line ! pos1 = DQ then
          (let pos2 = pos1 + 1;
               end = scanQuote line pos2
           in if end \<ge> length line then Inl (UnclosedQuote line)
              else Inr (slice line pos2 end, end + 1))
        else
          (let end = scanUnquoted line pos1
           in Inr (slice line pos1 end, end)))
     else Inr ([], pos))"

text \<open>The branches of \<^verbatim>\<open>parseValue\<close>, one equation each.\<close>

lemma parseValue_end: "length line \<le> pos \<Longrightarrow> parseValue line pos = Inr ([], pos)"
  by (simp add: parseValue_def)

definition colonStart :: "string \<Rightarrow> nat \<Rightarrow> nat" where
  "colonStart line pos =
    (if pos + 1 < length line \<and> line ! (pos + 1) = SP then pos + 2 else pos + 1)"

lemma parseValue_colon:
  "pos < length line \<Longrightarrow> line ! pos = CHR '':'' \<Longrightarrow>
   parseValue line pos =
     Inr (TrimRight (slice line (colonStart line pos) (scanComment line (colonStart line pos)))
            (\<lambda>c. c = SP),
          scanComment line (colonStart line pos))"
  by (simp add: parseValue_def Let_def colonStart_def)

lemma parseValue_equals_end:
  "pos < length line \<Longrightarrow> line ! pos = CHR ''='' \<Longrightarrow> length line \<le> pos + 1 \<Longrightarrow>
   parseValue line pos = Inr ([], pos + 1)"
  by (simp add: parseValue_def Let_def)

lemma parseValue_quoted:
  "pos + 1 < length line \<Longrightarrow> line ! pos = CHR ''='' \<Longrightarrow> line ! (pos + 1) = DQ \<Longrightarrow>
   parseValue line pos =
     (if length line \<le> scanQuote line (pos + 2) then Inl (UnclosedQuote line)
      else Inr (slice line (pos + 2) (scanQuote line (pos + 2)), scanQuote line (pos + 2) + 1))"
  by (simp add: parseValue_def Let_def)

lemma parseValue_unquoted:
  "pos + 1 < length line \<Longrightarrow> line ! pos = CHR ''='' \<Longrightarrow> line ! (pos + 1) \<noteq> DQ \<Longrightarrow>
   parseValue line pos =
     Inr (slice line (pos + 1) (scanUnquoted line (pos + 1)), scanUnquoted line (pos + 1))"
  by (simp add: parseValue_def Let_def)

lemma parseValue_other:
  "pos < length line \<Longrightarrow> line ! pos \<noteq> CHR '':'' \<Longrightarrow> line ! pos \<noteq> CHR ''='' \<Longrightarrow>
   parseValue line pos = Inr ([], pos)"
  by (simp add: parseValue_def)

lemma parseValue_cases:
  obtains
    (End) "length line \<le> pos"
  | (Colon) "pos < length line" "line ! pos = CHR '':''"
  | (EqualsEnd) "pos < length line" "line ! pos = CHR ''=''" "length line \<le> pos + 1"
  | (Quoted) "pos + 1 < length line" "line ! pos = CHR ''=''" "line ! (pos + 1) = DQ"
  | (Unquoted) "pos + 1 < length line" "line ! pos = CHR ''=''" "line ! (pos + 1) \<noteq> DQ"
  | (Other) "pos < length line" "line ! pos \<noteq> CHR '':''" "line ! pos \<noteq> CHR ''=''"
  by atomize_elim
    (cases "pos < length line"; cases "pos + 1 < length line"; simp add: not_less; blast)

lemma parseValue_err: "parseValue line pos = Inl e \<Longrightarrow> e = UnclosedQuote line"
proof (cases line pos rule: parseValue_cases)
  case Quoted
  then show "parseValue line pos = Inl e \<Longrightarrow> e = UnclosedQuote line"
    by (simp add: parseValue_quoted split: if_splits)
qed (simp_all add: parseValue_end parseValue_colon parseValue_equals_end parseValue_unquoted
      parseValue_other)

lemma scan_ge:
  "pos \<le> scanName line pos" "pos \<le> skipSpaces line pos" "pos \<le> scanComment line pos"
  "pos \<le> scanQuote line pos" "pos \<le> scanUnquoted line pos"
  by (simp_all add: scanName_def skipSpaces_def scanComment_def scanQuote_def scanUnquoted_def
      advance_ge)

lemma scan_le:
  "pos \<le> length line \<Longrightarrow> scanName line pos \<le> length line"
  "pos \<le> length line \<Longrightarrow> skipSpaces line pos \<le> length line"
  "pos \<le> length line \<Longrightarrow> scanComment line pos \<le> length line"
  "pos \<le> length line \<Longrightarrow> scanQuote line pos \<le> length line"
  "pos \<le> length line \<Longrightarrow> scanUnquoted line pos \<le> length line"
  by (simp_all add: scanName_def skipSpaces_def scanComment_def scanQuote_def scanUnquoted_def
      advance_le)

lemma colonStart_ge: "pos < colonStart line pos"
  by (simp add: colonStart_def)

lemma parseValue_pos: "parseValue line pos = Inr (v, p) \<Longrightarrow> pos \<le> p"
proof (cases line pos rule: parseValue_cases)
  case Colon
  assume "parseValue line pos = Inr (v, p)"
  with Colon have "p = scanComment line (colonStart line pos)" by (simp add: parseValue_colon)
  then show "pos \<le> p"
    using scan_ge(3) [of "colonStart line pos" line] colonStart_ge [of pos line] by simp
next
  case Quoted
  assume "parseValue line pos = Inr (v, p)"
  with Quoted have "p = scanQuote line (pos + 2) + 1"
    by (simp add: parseValue_quoted split: if_splits)
  then show "pos \<le> p" using scan_ge(4) [of "pos + 2" line] by simp
next
  case Unquoted
  assume "parseValue line pos = Inr (v, p)"
  with Unquoted have "p = scanUnquoted line (pos + 1)" by (simp add: parseValue_unquoted)
  then show "pos \<le> p" using scan_ge(5) [of "pos + 1" line] by simp
qed (simp_all add: parseValue_end parseValue_equals_end parseValue_other)

section \<open>The node parser: parseNode\<close>

text \<open>
  The attribute loop of \<^verbatim>\<open>parseNode\<close> (bml.go, lines 135 to 170): from \<open>pos\<close> on, the
  attributes of the line are appended to \<open>children\<close>.
\<close>

function parseAttrs :: "string \<Rightarrow> nat \<Rightarrow> Node list \<Rightarrow> error + Node list" where
  "parseAttrs line pos children =
    (if pos < length line then
       (let pos1 = skipSpaces line pos in
        if pos1 \<ge> length line then Inr children
        else if atComment line pos1 then Inr children
        else
          (let attrStart = pos1;
               pos2 = scanName line pos1 in
           if pos2 = attrStart then Inr children
           else
             (let attrName = slice line attrStart pos2 in
              if pos2 < length line then
                (case parseValue line pos2 of
                   Inl err \<Rightarrow> Inl err
                 | Inr (attrValue, pos3) \<Rightarrow>
                     parseAttrs line pos3 (children @ [Node attrName attrValue []]))
              else parseAttrs line pos2 (children @ [Node attrName [] []]))))
     else Inr children)"
  by pat_completeness auto
termination
proof (relation "measure (\<lambda>(line, pos, children). length line - pos)", goal_cases)
  case 1
  then show ?case by simp
next
  case (2 line pos children pos1 attrStart pos2 attrName x2 attrValue pos3)
  have "pos \<le> pos1" using 2(2) scan_ge(2) by simp
  moreover have "pos1 \<le> pos2" using 2(6) scan_ge(1) by simp
  moreover have "pos2 \<le> pos3"
    using 2(10,11) parseValue_pos [of line pos2 attrValue pos3] by simp
  ultimately show ?case using 2(1,7,5) by simp
next
  case (3 line pos children pos1 attrStart pos2 attrName)
  then show ?case by simp
qed

declare parseAttrs.simps [simp del]

text \<open>
  What \<^verbatim>\<open>parseNode\<close> reads from the node's own line (bml.go, lines 111 to 170): the
  name from column \<open>depth\<close> on, the inline value and the inline attributes.
\<close>

definition parseHeader :: "string \<Rightarrow> nat \<Rightarrow> error + Node" where
  "parseHeader line depth =
    (let pos = depth;
         nameStart = pos;
         pos1 = scanName line pos in
     if pos1 = nameStart then Inl (InvalidNodeName line)
     else
       (let name = slice line nameStart pos1 in
        case (if pos1 < length line then parseValue line pos1 else Inr ([], pos1)) of
          Inl err \<Rightarrow> Inl err
        | Inr (val, pos2) \<Rightarrow>
            (case parseAttrs line pos2 [] of
               Inl err \<Rightarrow> Inl err
             | Inr children \<Rightarrow> Inr (Node name val children))))"

text \<open>
  \<^verbatim>\<open>parseNode(lines, index, parentDepth)\<close> returns the node and the advanced index, or the
  error. \<open>parseChildren\<close> is its last loop (bml.go, lines 173 to 198), which consumes
  the continuation lines and the children of the node read so far.
\<close>

function parseNode :: "string list \<Rightarrow> nat \<Rightarrow> int \<Rightarrow> error + (Node \<times> nat)"
  and parseChildren :: "string list \<Rightarrow> nat \<Rightarrow> nat \<Rightarrow> Node \<Rightarrow> error + (Node \<times> nat)"
where
  "parseNode lines index parentDepth =
    (if index \<ge> length lines then Inl UnexpectedEndOfInput
     else
       (let line = lines ! index;
            index1 = index + 1;
            depth = readDepth line in
        if int depth \<le> parentDepth \<and> parentDepth \<ge> 0 then Inl (InvalidIndentation line)
        else
          (case parseHeader line depth of
             Inl err \<Rightarrow> Inl err
           | Inr node \<Rightarrow> parseChildren lines index1 depth node)))"
| "parseChildren lines index depth node =
    (if index < length lines then
       (let childDepth = readDepth (lines ! index) in
        if childDepth \<le> depth then Inr (node, index)
        else
          (let rest = TrimLeft (lines ! index) (\<lambda>c. c = SP \<or> c = TAB) in
           if HasPrefix rest '':'' then
             (let continuation = TrimPrefix (TrimPrefix rest '':'') '' '';
                  val = (if Value node \<noteq> [] then Value node @ [LF] else Value node)
              in parseChildren lines (index + 1) depth
                   (Node (Name node) (val @ continuation) (Children node)))
           else
             (case parseNode lines index (int depth) of
                Inl err \<Rightarrow> Inl err
              | Inr (child, index') \<Rightarrow>
                  parseChildren lines index' depth
                    (Node (Name node) (Value node) (Children node @ [child])))))
     else Inr (node, index))"
  by pat_completeness auto

text \<open>
  The loop goes on at the index the recursive call returns: termination needs that this
  index lies beyond the line the call started at.
\<close>

lemma parse_index_dom:
  "parseNode_parseChildren_dom (Inl (lines, index, parentDepth)) \<Longrightarrow>
     parseNode lines index parentDepth = Inr (n, j) \<Longrightarrow> index < j"
  "parseNode_parseChildren_dom (Inr (lines, index', depth, node)) \<Longrightarrow>
     parseChildren lines index' depth node = Inr (n', j') \<Longrightarrow> index' \<le> j'"
proof (induction lines index parentDepth and lines index' depth node
    arbitrary: n j and n' j' rule: parseNode_parseChildren.pinduct)
  case (1 lines index parentDepth)
  from 1(3) show ?case
    apply (subst (asm) parseNode.psimps [OF 1(1)])
    apply (simp add: Let_def split: if_splits sum.splits)
    using 1(2) by fastforce
next
  case (2 lines index depth node)
  note eq = 2(5) [unfolded parseChildren.psimps [OF 2(1)]]
  show ?case
  proof (cases "index < length lines \<and> \<not> readDepth (lines ! index) \<le> depth")
    case False
    with eq show ?thesis by (auto simp: Let_def split: if_splits)
  next
    case True
    then have a: "index < length lines" "\<not> readDepth (lines ! index) \<le> depth" by auto
    show ?thesis
    proof (cases "HasPrefix (TrimLeft (lines ! index) (\<lambda>c. c = SP \<or> c = TAB)) '':''")
      case True
      with eq a have "Suc index \<le> j'"
        using 2(2) [OF a(1) refl a(2) refl True refl refl, of n' j'] by (simp add: Let_def)
      then show ?thesis by simp
    next
      case False
      with eq a obtain child k where
        c: "parseNode lines index (int depth) = Inr (child, k)"
        and r: "parseChildren lines k depth
                  (Node (Name node) (Value node) (Children node @ [child])) = Inr (n', j')"
        by (auto simp: Let_def split: sum.splits prod.splits)
      have "index < k" using 2(3) [OF a(1) refl a(2) refl False c] .
      moreover have "k \<le> j'" using 2(4) [OF a(1) refl a(2) refl False c refl r] .
      ultimately show ?thesis by simp
    qed
  qed
qed

termination parseNode
proof (relation "measure (\<lambda>x. case x of
          Inl (lines, index, parentDepth) \<Rightarrow> 2 * (length lines - index)
        | Inr (lines, index, depth, node) \<Rightarrow> 2 * (length lines - index) + 1)", goal_cases)
  case 1
  then show ?case by simp
next
  case (2 lines index parentDepth x xa xb b)
  then show ?case by simp
next
  case (3 lines index depth node x xa xb xc)
  then show ?case by simp
next
  case (4 lines index depth node x xa)
  then show ?case by simp
next
  case (5 lines index depth node x xa b xb y)
  then have "index < y" using parse_index_dom(1) [of lines index "int depth" xb y] by simp
  with 5 show ?case by simp
qed

declare parseNode.simps [simp del] parseChildren.simps [simp del]

lemma parseChildren_step:
  "parseChildren lines index depth node =
    (if index < length lines \<and> depth < readDepth (lines ! index) then
       (if HasPrefix (TrimLeft (lines ! index) (\<lambda>c. c = SP \<or> c = TAB)) '':'' then
          parseChildren lines (index + 1) depth
            (Node (Name node)
               ((if Value node \<noteq> [] then Value node @ [LF] else Value node) @
                TrimPrefix (TrimPrefix (TrimLeft (lines ! index) (\<lambda>c. c = SP \<or> c = TAB)) '':'') '' '')
               (Children node))
        else
          (case parseNode lines index (int depth) of
             Inl err \<Rightarrow> Inl err
           | Inr (child, index') \<Rightarrow>
               parseChildren lines index' depth
                 (Node (Name node) (Value node) (Children node @ [child]))))
     else Inr (node, index))"
  by (subst parseChildren.simps) (auto simp: Let_def)

lemma parseNode_step:
  "parseNode lines index parentDepth =
    (if index \<ge> length lines then Inl UnexpectedEndOfInput
     else if int (readDepth (lines ! index)) \<le> parentDepth \<and> parentDepth \<ge> 0
       then Inl (InvalidIndentation (lines ! index))
     else
       (case parseHeader (lines ! index) (readDepth (lines ! index)) of
          Inl err \<Rightarrow> Inl err
        | Inr node \<Rightarrow> parseChildren lines (Suc index) (readDepth (lines ! index)) node))"
  by (subst parseNode.simps) (auto simp: Let_def)

lemma parse_index:
  "parseNode lines index parentDepth = Inr (n, j) \<Longrightarrow> index < j \<and> j \<le> length lines"
  "parseChildren lines index' depth node = Inr (n', j') \<Longrightarrow>
     index' \<le> length lines \<Longrightarrow> index' \<le> j' \<and> j' \<le> length lines"
proof (induction lines index parentDepth and lines index' depth node
    arbitrary: n j and n' j' rule: parseNode_parseChildren.induct)
  case (1 lines index parentDepth)
  from 1(2) obtain node where
    lt: "index < length lines"
    and r: "parseChildren lines (Suc index) (readDepth (lines ! index)) node = Inr (n, j)"
    and h: "parseHeader (lines ! index) (readDepth (lines ! index)) = Inr node"
    and d: "\<not> (int (readDepth (lines ! index)) \<le> parentDepth \<and> 0 \<le> parentDepth)"
    by (subst (asm) parseNode_step) (auto split: if_splits sum.splits)
  have "index + 1 \<le> j \<and> j \<le> length lines"
    using 1(1) [OF _ refl refl refl d h] r lt by simp
  then show ?case by simp
next
  case (2 lines index depth node)
  note eq = 2(4) [unfolded parseChildren_step [of lines index depth node]]
  show ?case
  proof (cases "index < length lines \<and> depth < readDepth (lines ! index)")
    case False
    with eq 2(5) show ?thesis by (auto split: if_splits)
  next
    case True
    then have a: "index < length lines" "\<not> readDepth (lines ! index) \<le> depth" by auto
    show ?thesis
    proof (cases "HasPrefix (TrimLeft (lines ! index) (\<lambda>c. c = SP \<or> c = TAB)) '':''")
      case True
      with eq a have "index + 1 \<le> j' \<and> j' \<le> length lines"
        using 2(1) [OF a(1) refl a(2) refl True refl refl, of n' j'] by simp
      then show ?thesis by simp
    next
      case False
      with eq a obtain child k where
        c: "parseNode lines index (int depth) = Inr (child, k)"
        and r: "parseChildren lines k depth
                  (Node (Name node) (Value node) (Children node @ [child])) = Inr (n', j')"
        by (auto split: sum.splits prod.splits)
      have k: "index < k \<and> k \<le> length lines" using 2(2) [OF a(1) refl a(2) refl False c] .
      moreover have "k \<le> j' \<and> j' \<le> length lines"
        using 2(3) [OF a(1) refl a(2) refl False c refl r] k by simp
      ultimately show ?thesis by simp
    qed
  qed
qed

section \<open>Parse\<close>

text \<open>The loop of \<^verbatim>\<open>Parse\<close> (bml.go, lines 36 to 42), which fills the root's children.\<close>

function parseTop :: "string list \<Rightarrow> nat \<Rightarrow> Node \<Rightarrow> error + Node" where
  "parseTop lines index root =
    (if index < length lines then
       (case parseNode lines index (- 1) of
          Inl err \<Rightarrow> Inl err
        | Inr (node, index') \<Rightarrow>
            parseTop lines index' (Node (Name root) (Value root) (Children root @ [node])))
     else Inr root)"
  by pat_completeness auto
termination
proof (relation "measure (\<lambda>(lines, index, root). length lines - index)", goal_cases)
  case 1
  then show ?case by simp
next
  case (2 lines index root b node index')
  then have "index < index'" using parse_index(1) [of lines index "- 1" node index'] by simp
  with 2 show ?case by simp
qed

declare parseTop.simps [simp del]

definition Parse :: "string \<Rightarrow> error + Document" where
  "Parse data =
    (let lines = normalizeLines data in
     if length lines = 0 then Inr (Document (Some (Node [] [] [])))
     else (case parseTop lines 0 (Node [] [] []) of
             Inl err \<Rightarrow> Inl err
           | Inr root \<Rightarrow> Inr (Document (Some root))))"

lemma parseAttrs_step:
  "parseAttrs line pos children =
    (if pos < length line \<and> skipSpaces line pos < length line
        \<and> \<not> atComment line (skipSpaces line pos)
        \<and> scanName line (skipSpaces line pos) \<noteq> skipSpaces line pos
     then
       (case (if scanName line (skipSpaces line pos) < length line
              then parseValue line (scanName line (skipSpaces line pos))
              else Inr ([], scanName line (skipSpaces line pos))) of
          Inl err \<Rightarrow> Inl err
        | Inr (attrValue, pos3) \<Rightarrow>
            parseAttrs line pos3
              (children @
               [Node (slice line (skipSpaces line pos) (scanName line (skipSpaces line pos)))
                  attrValue []]))
     else Inr children)"
  by (subst parseAttrs.simps) (simp add: Let_def split: sum.splits)

lemma parseAttrs_err: "parseAttrs line pos children = Inl e \<Longrightarrow> e = UnclosedQuote line"
proof (induction line pos children rule: parseAttrs.induct)
  case (1 line pos children)
  let ?p1 = "skipSpaces line pos"
  let ?p2 = "scanName line ?p1"
  note eq = 1(3) [unfolded parseAttrs_step [of line pos children]]
  show ?case
  proof (cases "pos < length line \<and> ?p1 < length line \<and> \<not> atComment line ?p1 \<and> ?p2 \<noteq> ?p1")
    case False
    with eq show ?thesis by (simp split: if_splits)
  next
    case True
    then have c: "pos < length line" "\<not> length line \<le> ?p1" "\<not> atComment line ?p1" "?p2 \<noteq> ?p1"
      by auto
    show ?thesis
    proof (cases "?p2 < length line")
      case lt: True
      show ?thesis
      proof (cases "parseValue line ?p2")
        case (Inl err)
        with eq True lt have "e = err" by simp
        with Inl parseValue_err show ?thesis by simp
      next
        case (Inr r)
        obtain v p3 where r: "r = (v, p3)" by (cases r)
        with Inr have pv: "parseValue line ?p2 = Inr (v, p3)" by simp
        with eq True lt have
          "parseAttrs line p3 (children @ [Node (slice line ?p1 ?p2) v []]) = Inl e" by simp
        then show ?thesis using 1(1) [OF c(1) refl c(2,3) refl refl c(4) refl lt pv refl]
          by simp
      qed
    next
      case ge: False
      with eq True have
        "parseAttrs line ?p2 (children @ [Node (slice line ?p1 ?p2) [] []]) = Inl e" by simp
      then show ?thesis using 1(2) [OF c(1) refl c(2,3) refl refl c(4) refl ge] by simp
    qed
  qed
qed

lemma parseHeader_step:
  "parseHeader line depth =
    (if scanName line depth = depth then Inl (InvalidNodeName line)
     else
       (case (if scanName line depth < length line then parseValue line (scanName line depth)
              else Inr ([], scanName line depth)) of
          Inl err \<Rightarrow> Inl err
        | Inr (val, pos2) \<Rightarrow>
            (case parseAttrs line pos2 [] of
               Inl err \<Rightarrow> Inl err
             | Inr children \<Rightarrow> Inr (Node (slice line depth (scanName line depth)) val children))))"
  by (simp add: parseHeader_def Let_def)

lemma parseHeader_err:
  "parseHeader line depth = Inl e \<Longrightarrow> e = InvalidNodeName line \<or> e = UnclosedQuote line"
  by (subst (asm) parseHeader_step)
    (auto split: if_splits sum.splits prod.splits dest: parseValue_err parseAttrs_err)

lemma parse_err_line:
  "parseNode lines index parentDepth = Inl e \<Longrightarrow> index < length lines \<Longrightarrow>
     e \<noteq> UnexpectedEndOfInput"
  "parseChildren lines index' depth node = Inl e' \<Longrightarrow> e' \<noteq> UnexpectedEndOfInput"
proof (induction lines index parentDepth and lines index' depth node
    arbitrary: e and e' rule: parseNode_parseChildren.induct)
  case (1 lines index parentDepth)
  let ?line = "lines ! index"
  note eq = 1(2) [unfolded parseNode_step [of lines index parentDepth]]
  show ?case
  proof (cases "int (readDepth ?line) \<le> parentDepth \<and> 0 \<le> parentDepth")
    case True
    with eq 1(3) show ?thesis by auto
  next
    case d: False
    show ?thesis
    proof (cases "parseHeader ?line (readDepth ?line)")
      case (Inl err)
      with eq 1(3) d have "e = err" by auto
      with Inl parseHeader_err [of ?line "readDepth ?line" err] show ?thesis by auto
    next
      case (Inr node)
      with eq 1(3) d have
        "parseChildren lines (Suc index) (readDepth ?line) node = Inl e" by auto
      then show ?thesis using 1(1) [OF _ refl refl refl d Inr] 1(3) by simp
    qed
  qed
next
  case (2 lines index depth node)
  note eq = 2(4) [unfolded parseChildren_step [of lines index depth node]]
  show ?case
  proof (cases "index < length lines \<and> depth < readDepth (lines ! index)")
    case False
    with eq show ?thesis by (auto split: if_splits)
  next
    case True
    then have a: "index < length lines" "\<not> readDepth (lines ! index) \<le> depth" by auto
    show ?thesis
    proof (cases "HasPrefix (TrimLeft (lines ! index) (\<lambda>c. c = SP \<or> c = TAB)) '':''")
      case True
      with eq a show ?thesis
        using 2(1) [OF a(1) refl a(2) refl True refl refl, of e'] by simp
    next
      case False
      show ?thesis
      proof (cases "parseNode lines index (int depth)")
        case (Inl err)
        with eq a False have "e' = err" by simp
        with Inl 2(2) [OF a(1) refl a(2) refl False, of err] a(1) show ?thesis by simp
      next
        case (Inr r)
        obtain child k where r: "r = (child, k)" by (cases r)
        from Inr r have c: "parseNode lines index (int depth) = Inr (child, k)" by simp
        from eq a False c have
          "parseChildren lines k depth
             (Node (Name node) (Value node) (Children node @ [child])) = Inl e'" by simp
        then show ?thesis using 2(3) [OF a(1) refl a(2) refl False c refl] by simp
      qed
    qed
  qed
qed

lemma parseTop_step:
  "parseTop lines index root =
    (if index < length lines then
       (case parseNode lines index (- 1) of
          Inl err \<Rightarrow> Inl err
        | Inr (node, index') \<Rightarrow>
            parseTop lines index' (Node (Name root) (Value root) (Children root @ [node])))
     else Inr root)"
  by (subst parseTop.simps) simp

lemma parseTop_err: "parseTop lines index root = Inl e \<Longrightarrow> e \<noteq> UnexpectedEndOfInput"
proof (induction lines index root rule: parseTop.induct)
  case (1 lines index root)
  note eq = 1(2) [unfolded parseTop_step [of lines index root]]
  show ?case
  proof (cases "index < length lines")
    case False
    with eq show ?thesis by simp
  next
    case lt: True
    show ?thesis
    proof (cases "parseNode lines index (- 1)")
      case (Inl err)
      with eq lt have "e = err" by simp
      with Inl parse_err_line(1) [of lines index "- 1" err] lt show ?thesis by simp
    next
      case (Inr r)
      obtain node k where r: "r = (node, k)" by (cases r)
      from Inr r have c: "parseNode lines index (- 1) = Inr (node, k)" by simp
      from eq lt c have
        "parseTop lines k (Node (Name root) (Value root) (Children root @ [node])) = Inl e"
        by simp
      then show ?thesis using 1(1) [OF lt c refl] by simp
    qed
  qed
qed

text \<open>
  C9. For every input, \<^verbatim>\<open>Parse\<close> never returns the error "unexpected end of input":
  the loop of \<^verbatim>\<open>Parse\<close> and the child loop call \<^verbatim>\<open>parseNode\<close> only while
  \<^verbatim>\<open>index < len(lines)\<close>, and every other error is one of the three that name a line.
\<close>

theorem C9_no_unexpected_end: "Parse data \<noteq> Inl UnexpectedEndOfInput"
proof
  assume a: "Parse data = Inl UnexpectedEndOfInput"
  then have "parseTop (normalizeLines data) 0 (Node [] [] []) = Inl UnexpectedEndOfInput"
    by (simp add: Parse_def Let_def split: if_splits sum.splits)
  then show False using parseTop_err by blast
qed

theorem C9_no_unexpected_end_witness:
  "Parse ''Node'' = Inr (Document (Some (Node [] [] [Node ''Node'' [] []])))
   \<and> Parse ''Node'' \<noteq> Inl UnexpectedEndOfInput"
proof -
  have a: "Parse ''Node'' = Inr (Document (Some (Node [] [] [Node ''Node'' [] []])))"
    by code_simp
  show ?thesis by (rule conjI [OF a C9_no_unexpected_end])
qed

lemma advance_step: "i < n \<Longrightarrow> go i \<Longrightarrow> advance go n i = advance go n (Suc i)"
  by (subst advance.simps) simp

lemma advance_stop: "\<not> (i < n \<and> go i) \<Longrightarrow> advance go n i = i"
  by (subst advance.simps) auto

lemma advance_stops: "i \<le> n \<Longrightarrow> advance go n i = n \<or> \<not> go (advance go n i)"
proof (induction go n i rule: advance.induct)
  case (1 go n i)
  show ?case
  proof (cases "i < n \<and> go i")
    case True
    then have "advance go n i = advance go n (i + 1)" by (simp add: advance_step)
    with True 1 show ?thesis by simp
  next
    case False
    then have "advance go n i = i" by (rule advance_stop)
    with False 1(2) show ?thesis by auto
  qed
qed

lemma advance_before: "i \<le> k \<Longrightarrow> k < advance go n i \<Longrightarrow> go k"
proof (induction go n i rule: advance.induct)
  case (1 go n i)
  show ?case
  proof (cases "i < n \<and> go i")
    case True
    then have e: "advance go n i = advance go n (i + 1)" by (simp add: advance_step)
    show ?thesis
    proof (cases "k = i")
      case True
      with \<open>i < n \<and> go i\<close> show ?thesis by simp
    next
      case False
      with 1(2) have "i + 1 \<le> k" by simp
      with 1(1) [OF True] 1(3) e show ?thesis by simp
    qed
  next
    case False
    then have "advance go n i = i" by (rule advance_stop)
    with 1(2,3) show ?thesis by simp
  qed
qed

lemma TrimRight_spaces:
  "\<exists>n. s = TrimRight s (\<lambda>c. c = SP) @ replicate n SP"
proof -
  let ?t = "takeWhile (\<lambda>c. c = SP) (rev s)"
  have "rev s = ?t @ dropWhile (\<lambda>c. c = SP) (rev s)" by simp
  then have "s = rev (dropWhile (\<lambda>c. c = SP) (rev s)) @ rev ?t"
    by (metis rev_append rev_rev_ident)
  moreover have "\<forall>c \<in> set (rev ?t). c = SP" using set_takeWhileD [of _ "\<lambda>c. c = SP" "rev s"] by auto
  then have "rev ?t = replicate (length ?t) SP"
    by (metis length_rev replicate_eqI)
  ultimately show ?thesis unfolding TrimRight_def by metis
qed

lemma TrimRight_last:
  "TrimRight s P = [] \<or> \<not> P (last (TrimRight s P))"
proof (cases "dropWhile P (rev s)")
  case Nil
  then show ?thesis by (simp add: TrimRight_def)
next
  case (Cons a as)
  then have "\<not> P a" using hd_dropWhile [of P "rev s"] by simp
  with Cons show ?thesis by (simp add: TrimRight_def)
qed

lemma atComment_iff:
  "atComment line k \<longleftrightarrow> k + 1 < length line \<and> line ! k = CHR ''/'' \<and> line ! (k + 1) = CHR ''/''"
proof (cases "k + 1 < length line")
  case True
  then have "take 2 (drop k line) = [line ! k, line ! (k + 1)]"
    by (metis Cons_nth_drop_Suc Suc_eq_plus1 Suc_lessD numeral_2_eq_2 take0 take_Suc_Cons)
  with True show ?thesis by (auto simp: atComment_def slice_def)
next
  case False
  then show ?thesis by (simp add: atComment_def)
qed

text \<open>
  C8. A value introduced by a colon: the cursor moves past the colon and past exactly one
  following space if there is one (\<open>start\<close>); the value is the rest of the line up to,
  not including, the first \<^verbatim>\<open>//\<close> at or after \<open>start\<close> (\<open>end\<close>), with its trailing spaces
  removed; the returned cursor is \<open>end\<close>, at the comment marker or at the end of the line.
\<close>

theorem C8_colon_value:
  assumes "pos < length line" and "line ! pos = CHR '':''"
  shows "\<exists>val start end n.
     parseValue line pos = Inr (val, end) \<and>
     start = (if pos + 1 < length line \<and> line ! (pos + 1) = SP then pos + 2 else pos + 1) \<and>
     start \<le> end \<and> end \<le> length line \<and>
     (\<forall>k. start \<le> k \<and> k < end \<longrightarrow>
        \<not> (k + 1 < length line \<and> line ! k = CHR ''/'' \<and> line ! (k + 1) = CHR ''/'')) \<and>
     (end = length line \<or>
        (end + 1 < length line \<and> line ! end = CHR ''/'' \<and> line ! (end + 1) = CHR ''/'')) \<and>
     slice line start end = val @ replicate n SP \<and>
     (val = [] \<or> last val \<noteq> SP)"
proof -
  let ?start = "colonStart line pos"
  let ?end = "scanComment line ?start"
  let ?val = "TrimRight (slice line ?start ?end) (\<lambda>c. c = SP)"
  have le: "?start \<le> length line" using assms(1) by (simp add: colonStart_def)
  obtain n where n: "slice line ?start ?end = ?val @ replicate n SP"
    using TrimRight_spaces by blast
  have "parseValue line pos = Inr (?val, ?end)" using assms by (rule parseValue_colon)
  moreover have "?start = (if pos + 1 < length line \<and> line ! (pos + 1) = SP then pos + 2 else pos + 1)"
    by (simp add: colonStart_def)
  moreover have "?start \<le> ?end" by (rule scan_ge)
  moreover have "?end \<le> length line" using le by (rule scan_le)
  moreover have "\<forall>k. ?start \<le> k \<and> k < ?end \<longrightarrow>
        \<not> (k + 1 < length line \<and> line ! k = CHR ''/'' \<and> line ! (k + 1) = CHR ''/'')"
    using advance_before [of ?start _ "\<lambda>e. \<not> atComment line e" "length line"]
    by (auto simp: scanComment_def atComment_iff)
  moreover have "?end = length line \<or>
        (?end + 1 < length line \<and> line ! ?end = CHR ''/'' \<and> line ! (?end + 1) = CHR ''/'')"
    using advance_stops [OF le, of "\<lambda>e. \<not> atComment line e"]
    by (auto simp: scanComment_def atComment_iff)
  moreover have "?val = [] \<or> last ?val \<noteq> SP" by (rule TrimRight_last)
  ultimately show ?thesis using n by blast
qed

theorem C8_colon_value_witness:
  "(1::nat) < length ''A: x //y'' \<and> ''A: x //y'' ! 1 = CHR '':'' \<and>
   parseValue ''A: x //y'' 1 = Inr (''x'', 5) \<and>
   (\<exists>val start end n.
     parseValue ''A: x //y'' 1 = Inr (val, end) \<and>
     start = (if 1 + 1 < length ''A: x //y'' \<and> ''A: x //y'' ! (1 + 1) = SP then 1 + 2 else 1 + 1) \<and>
     start \<le> end \<and> end \<le> length ''A: x //y'' \<and>
     (\<forall>k. start \<le> k \<and> k < end \<longrightarrow>
        \<not> (k + 1 < length ''A: x //y'' \<and> ''A: x //y'' ! k = CHR ''/''
           \<and> ''A: x //y'' ! (k + 1) = CHR ''/'')) \<and>
     (end = length ''A: x //y'' \<or>
        (end + 1 < length ''A: x //y'' \<and> ''A: x //y'' ! end = CHR ''/''
           \<and> ''A: x //y'' ! (end + 1) = CHR ''/'')) \<and>
     slice ''A: x //y'' start end = val @ replicate n SP \<and>
     (val = [] \<or> last val \<noteq> SP))"
proof -
  have h1: "(1::nat) < length ''A: x //y''" by simp
  have h2: "''A: x //y'' ! 1 = CHR '':''" by simp
  have v: "parseValue ''A: x //y'' 1 = Inr (''x'', 5)" by code_simp
  show ?thesis by (rule conjI [OF h1 conjI [OF h2 conjI [OF v C8_colon_value [OF h1 h2]]]])
qed

text \<open>
  The words of the specification for a continuation line: a line whose first character
  after its leading tabs and spaces is a colon carries the text after the colon, less one
  leading space; it is joined to a non-empty value by a newline and replaces an empty one.
\<close>

definition continuationText :: "string \<Rightarrow> string option" where
  "continuationText line =
    (case dropWhile (\<lambda>c. c = SP \<or> c = TAB) line of
       [] \<Rightarrow> None
     | c # r \<Rightarrow>
         if c = CHR '':'' then Some (case r of [] \<Rightarrow> [] | s # r' \<Rightarrow> if s = SP then r' else r)
         else None)"

definition joinValue :: "string \<Rightarrow> string \<Rightarrow> string" where
  "joinValue v c = (if v = [] then c else v @ [LF] @ c)"

lemma continuationText_Some:
  assumes "continuationText line = Some c"
  shows "HasPrefix (TrimLeft line (\<lambda>c. c = SP \<or> c = TAB)) '':''"
    and "TrimPrefix (TrimPrefix (TrimLeft line (\<lambda>c. c = SP \<or> c = TAB)) '':'') '' '' = c"
proof -
  obtain r where r: "dropWhile (\<lambda>c. c = SP \<or> c = TAB) line = CHR '':'' # r"
    and c: "c = (case r of [] \<Rightarrow> [] | s # r' \<Rightarrow> if s = SP then r' else r)"
    using assms by (auto simp: continuationText_def split: list.splits if_splits)
  show "HasPrefix (TrimLeft line (\<lambda>c. c = SP \<or> c = TAB)) '':''"
    using r by (simp add: HasPrefix_def TrimLeft_def)
  show "TrimPrefix (TrimPrefix (TrimLeft line (\<lambda>c. c = SP \<or> c = TAB)) '':'') '' '' = c"
    using r c by (cases r) (auto simp: HasPrefix_def TrimLeft_def TrimPrefix_def SP_def)
qed

lemma continuationText_None:
  "continuationText line = None \<Longrightarrow>
     \<not> HasPrefix (TrimLeft line (\<lambda>c. c = SP \<or> c = TAB)) '':''"
proof -
  assume a: "continuationText line = None"
  define d where "d = dropWhile (\<lambda>c. c = SP \<or> c = TAB) line"
  from a have "d = [] \<or> hd d \<noteq> CHR '':''"
    unfolding continuationText_def d_def [symmetric] by (cases d) (auto split: if_splits)
  then have "take (Suc 0) d \<noteq> '':''" by (cases d) auto
  then show ?thesis by (simp add: HasPrefix_def TrimLeft_def d_def)
qed

lemma parseChildren_continuation:
  assumes "index < length lines" and "depth < readDepth (lines ! index)"
    and "continuationText (lines ! index) = Some c"
  shows "parseChildren lines index depth node =
         parseChildren lines (Suc index) depth
           (Node (Name node) (joinValue (Value node) c) (Children node))"
  using assms continuationText_Some [OF assms(3)]
  by (subst parseChildren_step) (simp add: joinValue_def)

lemma parseChildren_continuations:
  "index + length cs \<le> length lines \<Longrightarrow>
   (\<forall>i < length cs. depth < readDepth (lines ! (index + i)) \<and>
       continuationText (lines ! (index + i)) = Some (cs ! i)) \<Longrightarrow>
   parseChildren lines index depth node =
     parseChildren lines (index + length cs) depth
       (Node (Name node) (foldl joinValue (Value node) cs) (Children node))"
proof (induction cs arbitrary: index node)
  case Nil
  then show ?case by simp
next
  case (Cons c cs)
  have 0: "index < length lines" "depth < readDepth (lines ! index)"
    "continuationText (lines ! index) = Some c"
    using Cons.prems by force+
  have rest: "\<forall>i < length cs. depth < readDepth (lines ! (Suc index + i)) \<and>
       continuationText (lines ! (Suc index + i)) = Some (cs ! i)"
  proof (intro allI impI)
    fix i assume "i < length cs"
    then have "Suc i < length (c # cs)" by simp
    with Cons.prems(2) have "depth < readDepth (lines ! (index + Suc i)) \<and>
       continuationText (lines ! (index + Suc i)) = Some ((c # cs) ! Suc i)" by blast
    then show "depth < readDepth (lines ! (Suc index + i)) \<and>
       continuationText (lines ! (Suc index + i)) = Some (cs ! i)" by simp
  qed
  have "parseChildren lines index depth node =
        parseChildren lines (Suc index) depth
          (Node (Name node) (joinValue (Value node) c) (Children node))"
    using 0 by (rule parseChildren_continuation)
  also have "\<dots> = parseChildren lines (Suc index + length cs) depth
       (Node (Name node) (foldl joinValue (joinValue (Value node) c) cs) (Children node))"
    using Cons.IH [OF _ rest, of "Node (Name node) (joinValue (Value node) c) (Children node)"]
      Cons.prems(1) by simp
  finally show ?case by simp
qed

text \<open>
  C7. In the child loop of a node of depth \<open>depth\<close>, consecutive lines that are deeper than
  \<open>depth\<close> and whose first character after the leading tabs and spaces is a colon are all
  consumed as continuation lines: the loop goes on behind them with the same name and
  children, and each text (the colon and at most one following space stripped) is
  appended to the value after a newline, or becomes the value when that is still empty.
  In particular \<^verbatim>\<open>Desc\<close>, \<^verbatim>\<open>  : Line 1\<close>, \<^verbatim>\<open>  : Line 2\<close> parses to the one node \<^verbatim>\<open>Desc\<close> with the
  value \<^verbatim>\<open>Line 1\<close>, newline, \<^verbatim>\<open>Line 2\<close>.
\<close>

theorem C7_continuation_lines:
  "(index + length cs \<le> length lines \<and>
    (\<forall>i < length cs. depth < readDepth (lines ! (index + i)) \<and>
        continuationText (lines ! (index + i)) = Some (cs ! i)) \<longrightarrow>
    parseChildren lines index depth node =
      parseChildren lines (index + length cs) depth
        (Node (Name node) (foldl joinValue (Value node) cs) (Children node))) \<and>
   Parse (''Desc'' @ [LF] @ ''  : Line 1'' @ [LF] @ ''  : Line 2'') =
     Inr (Document (Some (Node [] [] [Node ''Desc'' (''Line 1'' @ [LF] @ ''Line 2'') []])))"
proof (intro conjI impI)
  assume "index + length cs \<le> length lines \<and>
    (\<forall>i < length cs. depth < readDepth (lines ! (index + i)) \<and>
        continuationText (lines ! (index + i)) = Some (cs ! i))"
  then show "parseChildren lines index depth node =
      parseChildren lines (index + length cs) depth
        (Node (Name node) (foldl joinValue (Value node) cs) (Children node))"
    using parseChildren_continuations by blast
next
  show "Parse (''Desc'' @ [LF] @ ''  : Line 1'' @ [LF] @ ''  : Line 2'') =
     Inr (Document (Some (Node [] [] [Node ''Desc'' (''Line 1'' @ [LF] @ ''Line 2'') []])))"
    by code_simp
qed

theorem C7_continuation_lines_witness:
  "1 + length [''Line 1'', ''Line 2''] \<le> length [''Desc'', ''  : Line 1'', ''  : Line 2''] \<and>
   0 < readDepth ([''Desc'', ''  : Line 1'', ''  : Line 2''] ! (1 + 0)) \<and>
   0 < readDepth ([''Desc'', ''  : Line 1'', ''  : Line 2''] ! (1 + 1)) \<and>
   continuationText ([''Desc'', ''  : Line 1'', ''  : Line 2''] ! (1 + 0)) = Some ''Line 1'' \<and>
   continuationText ([''Desc'', ''  : Line 1'', ''  : Line 2''] ! (1 + 1)) = Some ''Line 2'' \<and>
   parseChildren [''Desc'', ''  : Line 1'', ''  : Line 2''] 1 0 (Node ''Desc'' [] []) =
     parseChildren [''Desc'', ''  : Line 1'', ''  : Line 2''] (1 + length [''Line 1'', ''Line 2'']) 0
       (Node (Name (Node ''Desc'' [] []))
          (foldl joinValue (Value (Node ''Desc'' [] [])) [''Line 1'', ''Line 2''])
          (Children (Node ''Desc'' [] []))) \<and>
   foldl joinValue (Value (Node ''Desc'' [] [])) [''Line 1'', ''Line 2''] =
     ''Line 1'' @ [LF] @ ''Line 2''"
proof -
  let ?ls = "[''Desc'', ''  : Line 1'', ''  : Line 2'']"
  let ?cs = "[''Line 1'', ''Line 2'']"
  have h1: "1 + length ?cs \<le> length ?ls" by simp
  have d0: "0 < readDepth (?ls ! (1 + 0))" by code_simp
  have d1: "0 < readDepth (?ls ! (1 + 1))" by code_simp
  have c0: "continuationText (?ls ! (1 + 0)) = Some ''Line 1''" by code_simp
  have c1: "continuationText (?ls ! (1 + 1)) = Some ''Line 2''" by code_simp
  have h2: "\<forall>i < length ?cs. 0 < readDepth (?ls ! (1 + i)) \<and>
        continuationText (?ls ! (1 + i)) = Some (?cs ! i)"
  proof (intro allI impI)
    fix i assume "i < length ?cs"
    then have "i = 0 \<or> i = 1" by auto
    then show "0 < readDepth (?ls ! (1 + i)) \<and> continuationText (?ls ! (1 + i)) = Some (?cs ! i)"
      using d0 d1 c0 c1 by auto
  qed
  have r: "parseChildren ?ls 1 0 (Node ''Desc'' [] []) =
     parseChildren ?ls (1 + length ?cs) 0
       (Node (Name (Node ''Desc'' [] []))
          (foldl joinValue (Value (Node ''Desc'' [] [])) ?cs)
          (Children (Node ''Desc'' [] [])))"
    using C7_continuation_lines [THEN conjunct1, rule_format, OF conjI [OF h1 h2]] .
  have j: "foldl joinValue (Value (Node ''Desc'' [] [])) ?cs = ''Line 1'' @ [LF] @ ''Line 2''"
    by (simp add: joinValue_def)
  show ?thesis using h1 d0 d1 c0 c1 r j by (intro conjI)
qed






text \<open>
  A line is read either as a continuation or by \<^verbatim>\<open>parseNode\<close>; \<open>lineError\<close> is the error its
  own text raises in the second case, whatever the lines around it.
\<close>

definition lineError :: "string \<Rightarrow> error option" where
  "lineError line =
    (case parseHeader line (readDepth line) of Inl e \<Rightarrow> Some e | Inr node \<Rightarrow> None)"








lemma lineError_cases:
  "lineError line = Some e \<Longrightarrow> e = InvalidNodeName line \<or> e = UnclosedQuote line"
  using parseHeader_err [of line "readDepth line" e]
  by (auto simp: lineError_def split: sum.splits)

lemma advance_takeWhile:
  "i \<le> length s \<Longrightarrow>
   advance (\<lambda>e. P (s ! e)) (length s) i = i + length (takeWhile P (drop i s))"
proof (induction "\<lambda>e. P (s ! e)" "length s" i rule: advance.induct)
  case (1 i)
  show ?case
  proof (cases "i < length s \<and> P (s ! i)")
    case True
    then have d: "drop i s = s ! i # drop (Suc i) s" by (simp add: Cons_nth_drop_Suc)
    from True have "advance (\<lambda>e. P (s ! e)) (length s) i =
        advance (\<lambda>e. P (s ! e)) (length s) (Suc i)"
      by (simp add: advance_step)
    also have "\<dots> = Suc i + length (takeWhile P (drop (Suc i) s))"
      using 1(1) True by simp
    finally show ?thesis using True d by simp
  next
    case False
    then have a: "advance (\<lambda>e. P (s ! e)) (length s) i = i" by (rule advance_stop)
    show ?thesis
    proof (cases "i < length s")
      case True
      with False have "\<not> P (s ! i)" by simp
      moreover from True have "drop i s = s ! i # drop (Suc i) s" by (simp add: Cons_nth_drop_Suc)
      ultimately show ?thesis using a by simp
    next
      case False
      with 1(2) a show ?thesis by simp
    qed
  qed
qed







lemma parseAttrs_later_error:
  "pos < length line \<Longrightarrow> skipSpaces line pos < length line \<Longrightarrow>
   \<not> atComment line (skipSpaces line pos) \<Longrightarrow>
   scanName line (skipSpaces line pos) \<noteq> skipSpaces line pos \<Longrightarrow>
   parseValue line (scanName line (skipSpaces line pos)) = Inr (v, p) \<Longrightarrow>
   parseAttrs line p
     (children @ [Node (slice line (skipSpaces line pos) (scanName line (skipSpaces line pos))) v []])
     = Inl e \<Longrightarrow>
   parseAttrs line pos children = Inl e"
  by (subst parseAttrs_step) (auto simp: parseValue_end split: if_splits)

lemma readDepth_TrimLeft:
  "TrimLeft line (\<lambda>c. c = SP \<or> c = TAB) = drop (readDepth line) line"
proof -
  have "(\<lambda>c. c = SP \<or> c = TAB) = (\<lambda>c. c = TAB \<or> c = SP)" by auto
  then show ?thesis by (simp add: TrimLeft_def readDepth_def dropWhile_eq_drop)
qed


lemma colon_no_name: "\<not> isValidNameChar (CHR '':'')"
  by (simp add: isValidNameChar_def)







section \<open>The parse with its source lines\<close>

text \<open>
  A \<^verbatim>\<open>Node\<close> does not record the line it was read from. To state where the nodes of the
  result come from, \<open>tracedNode\<close> repeats the run of \<^verbatim>\<open>parseNode\<close> and labels each node with
  the index of its own line; an inline attribute has no line of its own and is labelled
  \<open>None\<close>. Erasing the labels gives the result of \<^verbatim>\<open>parseNode\<close> (lemma \<open>traced_erase\<close>).
\<close>

datatype SNode = SNode (srcLine: "nat option") (sName: string) (sValue: string)
  (sChildren: "SNode list")

fun erase :: "SNode \<Rightarrow> Node" where
  "erase (SNode src name val children) = Node name val (map erase children)"

fun unsourced :: "Node \<Rightarrow> SNode" where
  "unsourced (Node name val children) = SNode None name val (map unsourced children)"

function tracedNode :: "string list \<Rightarrow> nat \<Rightarrow> int \<Rightarrow> error + (SNode \<times> nat)"
  and tracedChildren :: "string list \<Rightarrow> nat \<Rightarrow> nat \<Rightarrow> SNode \<Rightarrow> error + (SNode \<times> nat)"
where
  "tracedNode lines index parentDepth =
    (if index \<ge> length lines then Inl UnexpectedEndOfInput
     else if int (readDepth (lines ! index)) \<le> parentDepth \<and> parentDepth \<ge> 0
       then Inl (InvalidIndentation (lines ! index))
     else
       (case parseHeader (lines ! index) (readDepth (lines ! index)) of
          Inl err \<Rightarrow> Inl err
        | Inr node \<Rightarrow>
            tracedChildren lines (Suc index) (readDepth (lines ! index))
              (SNode (Some index) (Name node) (Value node) (map unsourced (Children node)))))"
| "tracedChildren lines index depth snode =
    (if index < length lines \<and> depth < readDepth (lines ! index) then
       (if HasPrefix (TrimLeft (lines ! index) (\<lambda>c. c = SP \<or> c = TAB)) '':'' then
          tracedChildren lines (Suc index) depth
            (SNode (srcLine snode) (sName snode)
               ((if sValue snode \<noteq> [] then sValue snode @ [LF] else sValue snode) @
                TrimPrefix (TrimPrefix (TrimLeft (lines ! index) (\<lambda>c. c = SP \<or> c = TAB)) '':'') '' '')
               (sChildren snode))
        else
          (case parseNode lines index (int depth) of
             Inl err \<Rightarrow> Inl err
           | Inr (child, index') \<Rightarrow>
               (case tracedNode lines index (int depth) of
                  Inl err \<Rightarrow> Inl err
                | Inr (schild, index'') \<Rightarrow>
                    tracedChildren lines index' depth
                      (SNode (srcLine snode) (sName snode) (sValue snode)
                         (sChildren snode @ [schild])))))
     else Inr (snode, index))"
  by pat_completeness auto
termination
proof (relation "measure (\<lambda>x. case x of
          Inl (lines, index, parentDepth) \<Rightarrow> 2 * (length lines - index)
        | Inr (lines, index, depth, snode) \<Rightarrow> 2 * (length lines - index) + 1)", goal_cases)
  case 1
  then show ?case by simp
next
  case (2 lines index parentDepth node)
  then show ?case by simp
next
  case (3 lines index depth snode)
  then show ?case by auto
next
  case (4 lines index depth snode x2 child index')
  then show ?case by auto
next
  case (5 lines index depth snode x2 child index' x2a schild index'')
  then have "index < index'" using parse_index(1) [of lines index "int depth" child index'] by simp
  with 5 show ?case by auto
qed

declare tracedNode.simps [simp del] tracedChildren.simps [simp del]

lemma erase_unsourced: "erase (unsourced n) = n"
  by (induction n rule: unsourced.induct) (simp add: map_idI)

lemma erase_sel: "Name (erase s) = sName s" "Value (erase s) = sValue s"
  "Children (erase s) = map erase (sChildren s)"
  by (cases s; simp)+

lemma tracedNode_step:
  "tracedNode lines index parentDepth =
    (if index \<ge> length lines then Inl UnexpectedEndOfInput
     else if int (readDepth (lines ! index)) \<le> parentDepth \<and> parentDepth \<ge> 0
       then Inl (InvalidIndentation (lines ! index))
     else
       (case parseHeader (lines ! index) (readDepth (lines ! index)) of
          Inl err \<Rightarrow> Inl err
        | Inr node \<Rightarrow>
            tracedChildren lines (Suc index) (readDepth (lines ! index))
              (SNode (Some index) (Name node) (Value node) (map unsourced (Children node)))))"
  by (subst tracedNode.simps) simp

fun eraseResult :: "error + (SNode \<times> nat) \<Rightarrow> error + (Node \<times> nat)" where
  "eraseResult (Inl e) = Inl e"
| "eraseResult (Inr (sn, j)) = Inr (erase sn, j)"

lemma traced_erase:
  "parseNode lines index parentDepth =
     eraseResult (tracedNode lines index parentDepth)"
  "parseChildren lines index' depth (erase snode) =
     eraseResult (tracedChildren lines index' depth snode)"
proof (induction lines index parentDepth and lines index' depth snode
    rule: tracedNode_tracedChildren.induct)
  case (1 lines index parentDepth)
  show ?case
  proof (cases "length lines \<le> index \<or>
      (int (readDepth (lines ! index)) \<le> parentDepth \<and> 0 \<le> parentDepth)")
    case True
    then show ?thesis
      by (subst tracedNode_step, subst parseNode_step) auto
  next
    case False
    then have a: "\<not> length lines \<le> index"
      "\<not> (int (readDepth (lines ! index)) \<le> parentDepth \<and> 0 \<le> parentDepth)" by auto
    show ?thesis
    proof (cases "parseHeader (lines ! index) (readDepth (lines ! index))")
      case (Inl err)
      with a show ?thesis
        by (subst tracedNode_step, subst parseNode_step) auto
    next
      case (Inr node)
      have e: "erase (SNode (Some index) (Name node) (Value node) (map unsourced (Children node)))
          = node"
        by (cases node) (simp add: erase_unsourced map_idI)
      have "parseNode lines index parentDepth =
          parseChildren lines (Suc index) (readDepth (lines ! index)) node"
        using a Inr by (subst parseNode_step) simp
      also have "\<dots> = eraseResult
          (tracedChildren lines (Suc index) (readDepth (lines ! index))
             (SNode (Some index) (Name node) (Value node) (map unsourced (Children node))))"
        using 1 [OF a Inr] e by simp
      also have "\<dots> = eraseResult (tracedNode lines index parentDepth)"
        using a Inr by (subst tracedNode_step) simp
      finally show ?thesis .
    qed
  qed
next
  case (2 lines index depth snode)
  let ?c = "index < length lines \<and> depth < readDepth (lines ! index)"
  let ?p = "HasPrefix (TrimLeft (lines ! index) (\<lambda>c. c = SP \<or> c = TAB)) '':''"
  show ?case
  proof (cases ?c)
    case False
    then show ?thesis
      by (subst tracedChildren.simps, subst parseChildren_step) auto
  next
    case c: True
    show ?thesis
    proof (cases ?p)
      case True
      let ?sn' = "SNode (srcLine snode) (sName snode)
               ((if sValue snode \<noteq> [] then sValue snode @ [LF] else sValue snode) @
                TrimPrefix (TrimPrefix (TrimLeft (lines ! index) (\<lambda>c. c = SP \<or> c = TAB)) '':'') '' '')
               (sChildren snode)"
      have "parseChildren lines index depth (erase snode) =
          parseChildren lines (Suc index) depth (erase ?sn')"
        using c True by (subst parseChildren_step) (simp add: erase_sel)
      also have "\<dots> = eraseResult (tracedChildren lines (Suc index) depth ?sn')"
        using 2(1) [OF c True] .
      also have "\<dots> = eraseResult (tracedChildren lines index depth snode)"
        using c True by (subst (2) tracedChildren.simps) simp
      finally show ?thesis .
    next
      case p: False
      show ?thesis
      proof (cases "parseNode lines index (int depth)")
        case (Inl err)
        with c p show ?thesis
          by (subst tracedChildren.simps, subst parseChildren_step) simp
      next
        case (Inr r0)
        obtain child k where r0: "r0 = (child, k)" by (cases r0)
        with Inr have pn: "parseNode lines index (int depth) = Inr (child, k)" by simp
        from 2(2) [OF c p pn refl] pn
        have ih: "eraseResult (tracedNode lines index (int depth)) = Inr (child, k)" by simp
        then obtain schild where tn: "tracedNode lines index (int depth) = Inr (schild, k)"
          and ch: "child = erase schild"
          by (cases "tracedNode lines index (int depth)") auto
        let ?sn' = "SNode (srcLine snode) (sName snode) (sValue snode) (sChildren snode @ [schild])"
        have "parseChildren lines index depth (erase snode) =
            parseChildren lines k depth (erase ?sn')"
          using c p pn ch by (subst parseChildren_step) (simp add: erase_sel)
        also have "\<dots> = eraseResult (tracedChildren lines k depth ?sn')"
          using 2(3) [OF c p pn refl tn refl] .
        also have "\<dots> = eraseResult (tracedChildren lines index depth snode)"
          using c p pn tn by (subst (2) tracedChildren.simps) simp
        finally show ?thesis .
      qed
    qed
  qed
qed

text \<open>
  What C5 says of a labelled tree: a node read from line \<open>k\<close> lies deeper than its parent,
  its name is the one read off line \<open>k\<close>, and the same holds below it, where the parent's
  depth is the depth of line \<open>k\<close>. An attribute has no line of its own.
\<close>

fun depthOK :: "string list \<Rightarrow> int \<Rightarrow> SNode \<Rightarrow> bool" where
  "depthOK lines parentDepth (SNode src name val children) =
    (case src of
       None \<Rightarrow> True
     | Some k \<Rightarrow>
         k < length lines \<and> parentDepth < int (readDepth (lines ! k)) \<and>
         name = slice (lines ! k) (readDepth (lines ! k))
                  (scanName (lines ! k) (readDepth (lines ! k))) \<and>
         (\<forall>c \<in> set children. depthOK lines (int (readDepth (lines ! k))) c))"

function tracedTop :: "string list \<Rightarrow> nat \<Rightarrow> SNode \<Rightarrow> error + SNode" where
  "tracedTop lines index sroot =
    (if index < length lines then
       (case parseNode lines index (- 1) of
          Inl err \<Rightarrow> Inl err
        | Inr (node, index') \<Rightarrow>
            (case tracedNode lines index (- 1) of
               Inl err \<Rightarrow> Inl err
             | Inr (snode, index'') \<Rightarrow>
                 tracedTop lines index'
                   (SNode (srcLine sroot) (sName sroot) (sValue sroot)
                      (sChildren sroot @ [snode]))))
     else Inr sroot)"
  by pat_completeness auto
termination
proof (relation "measure (\<lambda>(lines, index, sroot). length lines - index)", goal_cases)
  case 1
  then show ?case by simp
next
  case (2 lines index sroot b node index' ba snode index'')
  then have "index < index'" using parse_index(1) [of lines index "- 1" node index'] by simp
  with 2 show ?case by simp
qed

declare tracedTop.simps [simp del]

definition tracedParse :: "string \<Rightarrow> error + SNode" where
  "tracedParse data =
    (let lines = normalizeLines data in
     if length lines = 0 then Inr (SNode None [] [] [])
     else tracedTop lines 0 (SNode None [] [] []))"

lemma depthOK_unsourced: "depthOK lines pd (unsourced n)"
  by (cases n) simp

lemma depthOK_Some:
  "srcLine sn = Some k \<Longrightarrow>
   depthOK lines pd sn \<longleftrightarrow>
     k < length lines \<and> pd < int (readDepth (lines ! k)) \<and>
     sName sn = slice (lines ! k) (readDepth (lines ! k))
                  (scanName (lines ! k) (readDepth (lines ! k))) \<and>
     (\<forall>c \<in> set (sChildren sn). depthOK lines (int (readDepth (lines ! k))) c)"
  by (cases sn) simp

lemma parseHeader_Name:
  "parseHeader line depth = Inr node \<Longrightarrow> Name node = slice line depth (scanName line depth)"
  by (subst (asm) parseHeader_step) (auto split: if_splits sum.splits prod.splits)

lemma traced_depth:
  "\<forall>sn j. tracedNode lines index parentDepth = Inr (sn, j) \<longrightarrow>
     depthOK lines parentDepth sn \<and> srcLine sn = Some index"
  "\<forall>sn j. tracedChildren lines index' depth snode = Inr (sn, j) \<longrightarrow>
     (\<forall>k pd. srcLine snode = Some k \<and> readDepth (lines ! k) = depth \<and> depthOK lines pd snode \<longrightarrow>
        depthOK lines pd sn \<and> srcLine sn = Some k)"
proof (induction lines index parentDepth and lines index' depth snode
    rule: tracedNode_tracedChildren.induct)
  case (1 lines index parentDepth)
  show ?case
  proof (intro allI impI)
    fix sn j
    assume r: "tracedNode lines index parentDepth = Inr (sn, j)"
    then obtain node where a: "\<not> length lines \<le> index"
      "\<not> (int (readDepth (lines ! index)) \<le> parentDepth \<and> 0 \<le> parentDepth)"
      and h: "parseHeader (lines ! index) (readDepth (lines ! index)) = Inr node"
      and c: "tracedChildren lines (Suc index) (readDepth (lines ! index))
              (SNode (Some index) (Name node) (Value node) (map unsourced (Children node)))
              = Inr (sn, j)"
      by (subst (asm) tracedNode_step) (auto split: if_splits sum.splits)
    let ?s = "SNode (Some index) (Name node) (Value node) (map unsourced (Children node))"
    have d: "depthOK lines parentDepth ?s"
      using a parseHeader_Name [OF h] by (auto simp: depthOK_unsourced)
    from 1 [OF a h] c have "\<forall>k pd. srcLine ?s = Some k \<and>
        readDepth (lines ! k) = readDepth (lines ! index) \<and> depthOK lines pd ?s \<longrightarrow>
        depthOK lines pd sn \<and> srcLine sn = Some k" by blast
    then have "srcLine ?s = Some index \<and>
        readDepth (lines ! index) = readDepth (lines ! index) \<and> depthOK lines parentDepth ?s \<longrightarrow>
        depthOK lines parentDepth sn \<and> srcLine sn = Some index" by blast
    with d show "depthOK lines parentDepth sn \<and> srcLine sn = Some index"
      by simp
  qed
next
  case (2 lines index depth snode)
  let ?c = "index < length lines \<and> depth < readDepth (lines ! index)"
  let ?p = "HasPrefix (TrimLeft (lines ! index) (\<lambda>c. c = SP \<or> c = TAB)) '':''"
  show ?case
  proof (intro allI impI)
    fix sn j k pd
    assume r: "tracedChildren lines index depth snode = Inr (sn, j)"
      and s: "srcLine snode = Some k \<and> readDepth (lines ! k) = depth \<and> depthOK lines pd snode"
    show "depthOK lines pd sn \<and> srcLine sn = Some k"
    proof (cases ?c)
      case False
      with r have "sn = snode" by (subst (asm) tracedChildren.simps) auto
      with s show ?thesis by simp
    next
      case c: True
      show ?thesis
      proof (cases ?p)
        case True
        let ?sn' = "SNode (srcLine snode) (sName snode)
               ((if sValue snode \<noteq> [] then sValue snode @ [LF] else sValue snode) @
                TrimPrefix (TrimPrefix (TrimLeft (lines ! index) (\<lambda>c. c = SP \<or> c = TAB)) '':'') '' '')
               (sChildren snode)"
        from r c True have r': "tracedChildren lines (Suc index) depth ?sn' = Inr (sn, j)"
          by (subst (asm) tracedChildren.simps) simp
        from s have "srcLine ?sn' = Some k \<and> readDepth (lines ! k) = depth \<and> depthOK lines pd ?sn'"
          using depthOK_Some [of snode k lines pd] by simp
        with 2(1) [OF c True] r' show ?thesis by blast
      next
        case p: False
        from r c p obtain child i' schild i'' where
          pn: "parseNode lines index (int depth) = Inr (child, i')"
          and tn: "tracedNode lines index (int depth) = Inr (schild, i'')"
          and r': "tracedChildren lines i' depth
                (SNode (srcLine snode) (sName snode) (sValue snode) (sChildren snode @ [schild]))
                = Inr (sn, j)"
          by (subst (asm) tracedChildren.simps) (auto split: sum.splits)
        let ?sn' = "SNode (srcLine snode) (sName snode) (sValue snode) (sChildren snode @ [schild])"
        from 2(2) [OF c p pn refl] tn have "depthOK lines (int depth) schild" by simp
        with s have "srcLine ?sn' = Some k \<and> readDepth (lines ! k) = depth \<and> depthOK lines pd ?sn'"
          using depthOK_Some [of snode k lines pd] by auto
        with 2(3) [OF c p pn refl tn refl] r' show ?thesis by blast
      qed
    qed
  qed
qed

fun eraseRoot :: "error + SNode \<Rightarrow> error + Node" where
  "eraseRoot (Inl e) = Inl e"
| "eraseRoot (Inr sroot) = Inr (erase sroot)"

lemma tracedTop_erase:
  "parseTop lines index (erase sroot) = eraseRoot (tracedTop lines index sroot)"
proof (induction lines index sroot rule: tracedTop.induct)
  case (1 lines index sroot)
  show ?case
  proof (cases "index < length lines")
    case False
    then show ?thesis by (subst tracedTop.simps, subst parseTop_step) simp
  next
    case lt: True
    show ?thesis
    proof (cases "parseNode lines index (- 1)")
      case (Inl err)
      with lt show ?thesis by (subst tracedTop.simps, subst parseTop_step) simp
    next
      case (Inr r)
      obtain node k where "r = (node, k)" by (cases r)
      with Inr have pn: "parseNode lines index (- 1) = Inr (node, k)" by simp
      with traced_erase(1) [of lines index "- 1"]
      have "eraseResult (tracedNode lines index (- 1)) = Inr (node, k)" by simp
      then obtain snode where tn: "tracedNode lines index (- 1) = Inr (snode, k)"
        and n: "node = erase snode"
        by (cases "tracedNode lines index (- 1)") auto
      let ?s' = "SNode (srcLine sroot) (sName sroot) (sValue sroot) (sChildren sroot @ [snode])"
      have "parseTop lines index (erase sroot) = parseTop lines k (erase ?s')"
        using lt pn n by (subst parseTop_step) (simp add: erase_sel)
      also have "\<dots> = eraseRoot (tracedTop lines k ?s')"
        using 1 [OF lt pn refl tn refl] .
      also have "\<dots> = eraseRoot (tracedTop lines index sroot)"
        using lt pn tn by (subst (2) tracedTop.simps) simp
      finally show ?thesis .
    qed
  qed
qed

lemma tracedTop_depth:
  "tracedTop lines index sroot = Inr s \<Longrightarrow>
   \<forall>c \<in> set (sChildren sroot). depthOK lines (- 1) c \<Longrightarrow>
   \<forall>c \<in> set (sChildren s). depthOK lines (- 1) c"
proof (induction lines index sroot rule: tracedTop.induct)
  case (1 lines index sroot)
  show ?case
  proof (cases "index < length lines")
    case False
    with 1(2) have "s = sroot" by (subst (asm) tracedTop.simps) simp
    with 1(3) show ?thesis by simp
  next
    case lt: True
    with 1(2) obtain node k snode k' where
      pn: "parseNode lines index (- 1) = Inr (node, k)"
      and tn: "tracedNode lines index (- 1) = Inr (snode, k')"
      and r: "tracedTop lines k
           (SNode (srcLine sroot) (sName sroot) (sValue sroot) (sChildren sroot @ [snode])) = Inr s"
      by (subst (asm) tracedTop.simps) (auto split: sum.splits)
    from traced_depth(1) [of lines index "- 1"] tn have "depthOK lines (- 1) snode" by simp
    with 1(3) have "\<forall>c \<in> set (sChildren
        (SNode (srcLine sroot) (sName sroot) (sValue sroot) (sChildren sroot @ [snode]))).
        depthOK lines (- 1) c" by simp
    with 1(1) [OF lt pn refl tn refl r] show ?thesis by simp
  qed
qed

lemma tracedParse_erase:
  "Parse data =
    (case tracedParse data of Inl e \<Rightarrow> Inl e | Inr sroot \<Rightarrow> Inr (Document (Some (erase sroot))))"
proof (cases "length (normalizeLines data) = 0")
  case True
  then show ?thesis by (simp add: Parse_def tracedParse_def)
next
  case False
  have "parseTop (normalizeLines data) 0 (erase (SNode None [] [] [])) =
      eraseRoot (tracedTop (normalizeLines data) 0 (SNode None [] [] []))"
    by (rule tracedTop_erase)
  then show ?thesis using False
    by (cases "tracedTop (normalizeLines data) 0 (SNode None [] [] [])")
      (simp_all add: Parse_def tracedParse_def)
qed

lemma tracedParse_depth:
  assumes "tracedParse data = Inr sroot"
  shows "\<forall>c \<in> set (sChildren sroot). depthOK (normalizeLines data) (- 1) c"
proof (cases "length (normalizeLines data) = 0")
  case True
  with assms have "sroot = SNode None [] [] []" by (simp add: tracedParse_def)
  then show ?thesis by simp
next
  case False
  with assms have "tracedTop (normalizeLines data) 0 (SNode None [] [] []) = Inr sroot"
    by (simp add: tracedParse_def)
  from tracedTop_depth [OF this] show ?thesis by simp
qed

lemma parseNode_indentation:
  "index < length lines \<Longrightarrow> 0 \<le> parentDepth \<Longrightarrow>
   int (readDepth (lines ! index)) \<le> parentDepth \<Longrightarrow>
   parseNode lines index parentDepth = Inl (InvalidIndentation (lines ! index))"
  by (subst parseNode_step) simp

text \<open>
  C5. Every successful \<^verbatim>\<open>Parse\<close> is the erasure of a labelled parse in which each node
  read from a line of its own (every node but the inline attributes) is deeper than its
  parent: deeper than \<open>-1\<close> at the top level, deeper than the line of its parent below.
  The depth is \<^verbatim>\<open>readDepth\<close>, which counts tabs and spaces alike. And \<^verbatim>\<open>parseNode\<close>,
  called on a line that is not deeper than a parent depth \<open>\<ge> 0\<close>, fails with the
  indentation error.
\<close>

theorem C5_depth_monotone:
  "(\<forall>data doc. Parse data = Inr doc \<longrightarrow>
      (\<exists>sroot. tracedParse data = Inr sroot \<and> Root doc = Some (erase sroot) \<and>
         (\<forall>c \<in> set (sChildren sroot). depthOK (normalizeLines data) (- 1) c))) \<and>
   (\<forall>lines index parentDepth.
      index < length lines \<and> 0 \<le> parentDepth \<and>
      int (readDepth (lines ! index)) \<le> parentDepth \<longrightarrow>
      parseNode lines index parentDepth = Inl (InvalidIndentation (lines ! index)))"
proof (intro conjI allI impI)
  fix data doc
  assume p: "Parse data = Inr doc"
  then obtain sroot where t: "tracedParse data = Inr sroot"
    and d: "doc = Document (Some (erase sroot))"
    using tracedParse_erase [of data] by (cases "tracedParse data") auto
  from tracedParse_depth [OF t] d t
  show "\<exists>sroot. tracedParse data = Inr sroot \<and> Root doc = Some (erase sroot) \<and>
         (\<forall>c \<in> set (sChildren sroot). depthOK (normalizeLines data) (- 1) c)"
    by auto
next
  fix lines index parentDepth
  assume "index < length lines \<and> 0 \<le> parentDepth \<and>
      int (readDepth (lines ! index)) \<le> parentDepth"
  then show "parseNode lines index parentDepth = Inl (InvalidIndentation (lines ! index))"
    using parseNode_indentation by blast
qed

theorem C5_depth_monotone_witness:
  "Parse (''A'' @ [LF] @ [TAB, SP] @ ''B x=1'' @ [LF] @ ''    : v'' @ [LF] @ '' C'') =
     Inr (Document (Some (Node [] []
       [Node ''A'' [] [Node ''B'' ''v'' [Node ''x'' ''1'' []], Node ''C'' [] []]]))) \<and>
   (\<exists>sroot.
      tracedParse (''A'' @ [LF] @ [TAB, SP] @ ''B x=1'' @ [LF] @ ''    : v'' @ [LF] @ '' C'') =
        Inr sroot \<and>
      Root (Document (Some (Node [] []
       [Node ''A'' [] [Node ''B'' ''v'' [Node ''x'' ''1'' []], Node ''C'' [] []]]))) =
        Some (erase sroot) \<and>
      (\<forall>c \<in> set (sChildren sroot).
         depthOK
           (normalizeLines
              (''A'' @ [LF] @ [TAB, SP] @ ''B x=1'' @ [LF] @ ''    : v'' @ [LF] @ '' C''))
           (- 1) c)) \<and>
   tracedParse (''A'' @ [LF] @ [TAB, SP] @ ''B x=1'' @ [LF] @ ''    : v'' @ [LF] @ '' C'') =
     Inr (SNode None [] []
       [SNode (Some 0) ''A'' []
         [SNode (Some 1) ''B'' ''v'' [SNode None ''x'' ''1'' []], SNode (Some 3) ''C'' [] []]]) \<and>
   (1::nat) < length [''Node'', ''  Child''] \<and> (0::int) \<le> 5 \<and>
   int (readDepth ([''Node'', ''  Child''] ! 1)) \<le> 5 \<and>
   parseNode [''Node'', ''  Child''] 1 5 =
     Inl (InvalidIndentation ([''Node'', ''  Child''] ! 1))"
proof -
  let ?data = "''A'' @ [LF] @ [TAB, SP] @ ''B x=1'' @ [LF] @ ''    : v'' @ [LF] @ '' C''"
  let ?doc = "Document (Some (Node [] []
       [Node ''A'' [] [Node ''B'' ''v'' [Node ''x'' ''1'' []], Node ''C'' [] []]]))"
  note c = C5_depth_monotone
  have p: "Parse ?data = Inr ?doc" by code_simp
  have w1: "\<exists>sroot. tracedParse ?data = Inr sroot \<and> Root ?doc = Some (erase sroot) \<and>
      (\<forall>c \<in> set (sChildren sroot). depthOK (normalizeLines ?data) (- 1) c)"
    using c [THEN conjunct1, rule_format, OF p] .
  have t: "tracedParse ?data =
     Inr (SNode None [] []
       [SNode (Some 0) ''A'' []
         [SNode (Some 1) ''B'' ''v'' [SNode None ''x'' ''1'' []], SNode (Some 3) ''C'' [] []]])"
    by code_simp
  have h1: "(1::nat) < length [''Node'', ''  Child'']" by simp
  have h2: "(0::int) \<le> 5" by simp
  have h3: "int (readDepth ([''Node'', ''  Child''] ! 1)) \<le> 5" by code_simp
  have w2: "parseNode [''Node'', ''  Child''] 1 5 =
     Inl (InvalidIndentation ([''Node'', ''  Child''] ! 1))"
    using c [THEN conjunct2, rule_format, OF conjI [OF h1 conjI [OF h2 h3]]] .
  show ?thesis using p w1 t h1 h2 h3 w2 by (intro conjI)
qed

section \<open>The path API: Get, Set, Remove\<close>

text \<open>
  The inner loops of \<^verbatim>\<open>Get\<close>, \<^verbatim>\<open>Set\<close> and \<^verbatim>\<open>Remove\<close> look for the first child with a given
  name; \<open>findChild\<close> is its index. The methods are named after their receiver type.
\<close>

fun findChild :: "Node list \<Rightarrow> string \<Rightarrow> nat option" where
  "findChild [] part = None"
| "findChild (child # rest) part =
    (if Name child = part then Some 0 else map_option Suc (findChild rest part))"

text \<open>The loop of \<^verbatim>\<open>Get\<close> over the parts of the split path, from the node \<open>current\<close>.\<close>

fun Get_loop :: "Node \<Rightarrow> string list \<Rightarrow> Node option" where
  "Get_loop current [] = Some current"
| "Get_loop current (part # parts) =
    (if part = [] then Get_loop current parts
     else (case findChild (Children current) part of
             None \<Rightarrow> None
           | Some k \<Rightarrow> Get_loop (Children current ! k) parts))"

definition Node_Get :: "Node option \<Rightarrow> string \<Rightarrow> Node option" where
  "Node_Get n path =
    (case n of None \<Rightarrow> None | Some root \<Rightarrow> Get_loop root (Split path (CHR ''/'')))"

text \<open>
  The loop of \<^verbatim>\<open>Set\<close>. It returns the subtree of \<open>current\<close> after the call and the node
  the call returns. The test \<^verbatim>\<open>i == len(parts)-1\<close> holds when no part is left behind the
  current one.
\<close>

fun Set_loop :: "Node \<Rightarrow> string list \<Rightarrow> string \<Rightarrow> Node \<times> Node" where
  "Set_loop current [] val = (current, current)"
| "Set_loop current (part # parts) val =
    (if part = [] then Set_loop current parts val
     else
       (let (children, k) =
              (case findChild (Children current) part of
                 None \<Rightarrow> (Children current @ [Node part [] []], length (Children current))
               | Some k \<Rightarrow> (Children current, k));
            found = children ! k
        in if parts = [] then
             (let found' = Node (Name found) val (Children found)
              in (Node (Name current) (Value current) (children[k := found']), found'))
           else
             (let (found', result) = Set_loop found parts val
              in (Node (Name current) (Value current) (children[k := found']), result))))"

definition Node_Set :: "Node option \<Rightarrow> string \<Rightarrow> string \<Rightarrow> Node option \<times> Node option" where
  "Node_Set n path val =
    (case n of None \<Rightarrow> (None, None)
     | Some root \<Rightarrow>
         (let (root', result) = Set_loop root (Split path (CHR ''/'')) val
          in (Some root', Some result)))"

text \<open>
  \<^verbatim>\<open>Remove\<close>: the first loop walks all parts but the last and skips the empty ones; the
  last part, empty or not, is the name whose first match is removed. \<^verbatim>\<open>strings.Split\<close>
  never returns an empty list, so the first equation is never reached from \<open>Node_Remove\<close>.
\<close>

fun Remove_loop :: "Node \<Rightarrow> string list \<Rightarrow> Node \<times> bool" where
  "Remove_loop current [] = (current, False)"
| "Remove_loop current [targetName] =
    (case findChild (Children current) targetName of
       None \<Rightarrow> (current, False)
     | Some i \<Rightarrow>
         (Node (Name current) (Value current)
            (take i (Children current) @ drop (i + 1) (Children current)), True))"
| "Remove_loop current (part # parts) =
    (if part = [] then Remove_loop current parts
     else (case findChild (Children current) part of
             None \<Rightarrow> (current, False)
           | Some k \<Rightarrow>
               (let (child', removed) = Remove_loop (Children current ! k) parts
                in (Node (Name current) (Value current) ((Children current)[k := child']),
                    removed))))"

definition Node_Remove :: "Node option \<Rightarrow> string \<Rightarrow> Node option \<times> bool" where
  "Node_Remove n path =
    (case n of None \<Rightarrow> (None, False)
     | Some root \<Rightarrow>
         (let (root', removed) = Remove_loop root (Split path (CHR ''/''))
          in (Some root', removed)))"

section \<open>The typed accessors: String, Bool, Int, Float\<close>

definition Node_String :: "Node option \<Rightarrow> string \<Rightarrow> string" where
  "Node_String n fallback =
    (case n of None \<Rightarrow> fallback | Some node \<Rightarrow> TrimSpace (Value node))"

definition Node_Bool :: "Node option \<Rightarrow> bool \<Rightarrow> bool" where
  "Node_Bool n fallback =
    (case n of None \<Rightarrow> fallback
     | Some node \<Rightarrow>
         (let v = TrimSpace (Value node) in
          if v = ''true'' then True
          else if v = ''false'' then False
          else fallback))"

text \<open>
  \<^verbatim>\<open>strconv.Atoi\<close> of Go's library, for the 64-bit \<^verbatim>\<open>int\<close>: an optional sign, then one or
  more decimal digits, and a value within the range of the type; anything else is an
  error (\<open>None\<close>).
\<close>

definition isDigit :: "char \<Rightarrow> bool" where
  "isDigit c = (48 \<le> (of_char c :: nat) \<and> (of_char c :: nat) \<le> 57)"

definition decimal :: "string \<Rightarrow> int" where
  "decimal ds = foldl (\<lambda>n ch. n * 10 + (int (of_char ch) - 48)) 0 ds"

definition Atoi :: "string \<Rightarrow> int option" where
  "Atoi s =
    (let neg = (s \<noteq> [] \<and> hd s = CHR ''-'');
         ds = (if s \<noteq> [] \<and> (hd s = CHR ''-'' \<or> hd s = CHR ''+'') then tl s else s)
     in if ds = [] then None
        else if list_all isDigit ds then
          (let n = (if neg then - decimal ds else decimal ds)
           in if - (2 ^ 63) \<le> n \<and> n \<le> 2 ^ 63 - 1 then Some n else None)
        else None)"

definition Node_Int :: "Node option \<Rightarrow> int \<Rightarrow> int" where
  "Node_Int n fallback =
    (case n of None \<Rightarrow> fallback
     | Some node \<Rightarrow>
         (let v = TrimSpace (Value node) in
          case Atoi v of None \<Rightarrow> fallback | Some i \<Rightarrow> i))"

text \<open>
  \<^verbatim>\<open>Float\<close> calls \<^verbatim>\<open>strconv.ParseFloat(v, 64)\<close>. Floating-point parsing is not modelled:
  the library function is a parameter, \<open>None\<close> standing for its error, and the type of
  floats is left open.
\<close>

definition Node_Float :: "(string \<Rightarrow> 'f option) \<Rightarrow> Node option \<Rightarrow> 'f \<Rightarrow> 'f" where
  "Node_Float ParseFloat n fallback =
    (case n of None \<Rightarrow> fallback
     | Some node \<Rightarrow>
         (let v = TrimSpace (Value node) in
          case ParseFloat v of None \<Rightarrow> fallback | Some f \<Rightarrow> f))"

section \<open>The serializer: Serialize, serializeNode\<close>

text \<open>
  \<^verbatim>\<open>serializeNode\<close> only appends to the buffer: the model returns what it appends. Both
  branches of its last \<^verbatim>\<open>if\<close> run the same loop over the children.
\<close>

fun serializeNode :: "Node \<Rightarrow> nat \<Rightarrow> string" where
  "serializeNode (Node name val children) depth =
    replicate (depth * 2) SP @ name @
    (if val \<noteq> [] then
       (if Contains val LF then
          [LF] @ concat (map (\<lambda>line. replicate ((depth + 1) * 2) SP @ '': '' @ line @ [LF])
                         (Split val LF))
        else '': '' @ val @ [LF])
     else [LF]) @
    (if \<not> Contains val LF \<or> val = [] then
       concat (map (\<lambda>child. serializeNode child (depth + 1)) children)
     else concat (map (\<lambda>child. serializeNode child (depth + 1)) children))"

declare serializeNode.simps [simp del]

definition Serialize :: "Document option \<Rightarrow> string" where
  "Serialize doc =
    (case doc of None \<Rightarrow> []
     | Some d \<Rightarrow> (case Root d of None \<Rightarrow> []
         | Some root \<Rightarrow> concat (map (\<lambda>child. serializeNode child 0) (Children root))))"

lemma Atoi_empty: "Atoi [] = None"
  by (simp add: Atoi_def)

text \<open>
  C2, as the code has it. \<^verbatim>\<open>Bool\<close>, \<^verbatim>\<open>Int\<close> and \<^verbatim>\<open>Float\<close> return the fallback when the node is
  absent, when the trimmed value is empty and when it does not parse (\<^verbatim>\<open>Bool\<close> accepts
  \<^verbatim>\<open>true\<close> and \<^verbatim>\<open>false\<close> only), and the coerced trimmed value otherwise. \<^verbatim>\<open>String\<close> returns
  the fallback for an absent node only: on a present node it returns the trimmed value,
  also when that is empty. The results are plain values: no accessor can fail.
\<close>

theorem C2_accessors:
  "Node_String n fs = (case n of None \<Rightarrow> fs | Some node \<Rightarrow> TrimSpace (Value node)) \<and>
   Node_Bool n fb =
     (case n of None \<Rightarrow> fb
      | Some node \<Rightarrow>
          if TrimSpace (Value node) = [] then fb
          else if TrimSpace (Value node) = ''true'' then True
          else if TrimSpace (Value node) = ''false'' then False
          else fb) \<and>
   Node_Int n fi =
     (case n of None \<Rightarrow> fi
      | Some node \<Rightarrow>
          if TrimSpace (Value node) = [] then fi
          else (case Atoi (TrimSpace (Value node)) of None \<Rightarrow> fi | Some i \<Rightarrow> i)) \<and>
   (ParseFloat [] = None \<longrightarrow>
    Node_Float ParseFloat n ff =
      (case n of None \<Rightarrow> ff
       | Some node \<Rightarrow>
           if TrimSpace (Value node) = [] then ff
           else (case ParseFloat (TrimSpace (Value node)) of None \<Rightarrow> ff | Some f \<Rightarrow> f)))"
  by (cases n) (simp_all add: Node_String_def Node_Bool_def Node_Int_def Node_Float_def
      Atoi_empty Let_def)

theorem C2_accessors_witness:
  "(\<lambda>s. if s = ''1.5'' then Some (15::int) else None) [] = None \<and>
   Node_String (Some (Node ''A'' '' x '' [])) ''f'' = ''x'' \<and>
   Node_String (Some (Node ''A'' ''  '' [])) ''f'' = [] \<and>
   Node_Bool (Some (Node ''A'' '' true'' [])) False = True \<and>
   Node_Bool (Some (Node ''A'' ''yes'' [])) False = False \<and>
   Node_Int (Some (Node ''A'' '' 42 '' [])) 7 = 42 \<and>
   Node_Int (Some (Node ''A'' ''  '' [])) 7 = 7 \<and>
   Node_Int None 7 = 7 \<and>
   Node_Float (\<lambda>s. if s = ''1.5'' then Some (15::int) else None)
     (Some (Node ''A'' '' 1.5 '' [])) 0 = 15 \<and>
   Node_Float (\<lambda>s. if s = ''1.5'' then Some (15::int) else None)
     (Some (Node ''A'' ''  '' [])) 0 = 0"
proof -
  let ?pf = "\<lambda>s. if s = ''1.5'' then Some (15::int) else None"
  have h: "?pf [] = None" by simp
  have t1: "TrimSpace '' x '' = ''x''" by code_simp
  have t2: "TrimSpace ''  '' = []" by code_simp
  have t3: "TrimSpace '' true'' = ''true''" by code_simp
  have t4: "TrimSpace ''yes'' = ''yes''" by code_simp
  have t5: "TrimSpace '' 42 '' = ''42''" by code_simp
  have t6: "TrimSpace '' 1.5 '' = ''1.5''" by code_simp
  have a: "Atoi ''42'' = Some 42" by code_simp
  note c = C2_accessors
  have w1: "Node_String (Some (Node ''A'' '' x '' [])) ''f'' = ''x''"
    using c [THEN conjunct1, of "Some (Node ''A'' '' x '' [])" "''f''"] t1 by simp
  have w2: "Node_String (Some (Node ''A'' ''  '' [])) ''f'' = []"
    using c [THEN conjunct1, of "Some (Node ''A'' ''  '' [])" "''f''"] t2 by simp
  have w3: "Node_Bool (Some (Node ''A'' '' true'' [])) False = True"
    using c [THEN conjunct2, THEN conjunct1, of "Some (Node ''A'' '' true'' [])" False] t3
    by simp
  have w4: "Node_Bool (Some (Node ''A'' ''yes'' [])) False = False"
    using c [THEN conjunct2, THEN conjunct1, of "Some (Node ''A'' ''yes'' [])" False] t4
    by simp
  have w5: "Node_Int (Some (Node ''A'' '' 42 '' [])) 7 = 42"
    using c [THEN conjunct2, THEN conjunct2, THEN conjunct1, of "Some (Node ''A'' '' 42 '' [])" 7]
      t5 a by simp
  have w6: "Node_Int (Some (Node ''A'' ''  '' [])) 7 = 7"
    using c [THEN conjunct2, THEN conjunct2, THEN conjunct1, of "Some (Node ''A'' ''  '' [])" 7]
      t2 by simp
  have w7: "Node_Int None 7 = 7"
    using c [THEN conjunct2, THEN conjunct2, THEN conjunct1, of None 7] by simp
  have w8: "Node_Float ?pf (Some (Node ''A'' '' 1.5 '' [])) 0 = 15"
    using C2_accessors [where ParseFloat = ?pf and n = "Some (Node ''A'' '' 1.5 '' [])"
        and ff = 0, THEN conjunct2, THEN conjunct2, THEN conjunct2, rule_format, OF h] t6
    by simp
  have w9: "Node_Float ?pf (Some (Node ''A'' ''  '' [])) 0 = 0"
    using C2_accessors [where ParseFloat = ?pf and n = "Some (Node ''A'' ''  '' [])"
        and ff = 0, THEN conjunct2, THEN conjunct2, THEN conjunct2, rule_format, OF h] t2
    by simp
  show ?thesis using h w1 w2 w3 w4 w5 w6 w7 w8 w9 by (intro conjI)
qed

text \<open>
  The claim as stated fails for \<^verbatim>\<open>String\<close>: on a present node whose value is two spaces the
  trimmed value is empty and the result is the empty string, not the fallback.
\<close>

theorem C2_String_counterexample:
  "TrimSpace (Value (Node ''A'' ''  '' [])) = [] \<and>
   Node_String (Some (Node ''A'' ''  '' [])) ''fallback'' \<noteq> ''fallback''"
  by code_simp

section \<open>The frame of Set\<close>

lemma findChild_Some:
  "findChild cs part = Some k \<Longrightarrow>
     k < length cs \<and> Name (cs ! k) = part \<and> (\<forall>j < k. Name (cs ! j) \<noteq> part)"
proof (induction cs arbitrary: k)
  case Nil
  then show ?case by simp
next
  case (Cons c cs)
  show ?case
  proof (cases "Name c = part")
    case True
    with Cons.prems show ?thesis by simp
  next
    case False
    with Cons.prems obtain k' where k': "findChild cs part = Some k'" "k = Suc k'" by auto
    from Cons.IH [OF k'(1)] k'(2) False show ?thesis
      by (auto simp: nth_Cons split: nat.splits)
  qed
qed

lemma findChild_None: "findChild cs part = None \<longleftrightarrow> (\<forall>c \<in> set cs. Name c \<noteq> part)"
  by (induction cs) auto

lemma findChild_append:
  "findChild (cs @ ds) part =
    (case findChild cs part of
       Some k \<Rightarrow> Some k
     | None \<Rightarrow> map_option (\<lambda>k. length cs + k) (findChild ds part))"
  by (induction cs; cases "findChild ds part") (auto split: option.splits)

text \<open>
  One round of the loop of \<^verbatim>\<open>Set\<close> for a non-empty part: \<open>setIndex\<close> is the index of the
  child the round goes to (a new last child when no child has the name) and \<open>setChildren\<close>
  the children of the current node once the missing child is appended.
\<close>

definition setIndex :: "Node \<Rightarrow> string \<Rightarrow> nat" where
  "setIndex current part =
    (case findChild (Children current) part of None \<Rightarrow> length (Children current) | Some k \<Rightarrow> k)"

definition setChildren :: "Node \<Rightarrow> string \<Rightarrow> Node list" where
  "setChildren current part =
    (case findChild (Children current) part of
       None \<Rightarrow> Children current @ [Node part [] []]
     | Some k \<Rightarrow> Children current)"

lemma Set_loop_empty: "Set_loop current ([] # parts) val = Set_loop current parts val"
  by simp

lemma Set_loop_last:
  "part \<noteq> [] \<Longrightarrow>
   Set_loop current [part] val =
     (Node (Name current) (Value current)
        ((setChildren current part)
           [setIndex current part :=
              Node (Name (setChildren current part ! setIndex current part)) val
                (Children (setChildren current part ! setIndex current part))]),
      Node (Name (setChildren current part ! setIndex current part)) val
        (Children (setChildren current part ! setIndex current part)))"
  by (simp add: setIndex_def setChildren_def Let_def split: option.splits)

lemma Set_loop_inner:
  "part \<noteq> [] \<Longrightarrow> parts \<noteq> [] \<Longrightarrow>
   Set_loop current (part # parts) val =
     (Node (Name current) (Value current)
        ((setChildren current part)
           [setIndex current part :=
              fst (Set_loop (setChildren current part ! setIndex current part) parts val)]),
      snd (Set_loop (setChildren current part ! setIndex current part) parts val))"
  by (simp add: setIndex_def setChildren_def Let_def split: option.splits prod.splits)

lemma setIndex_lt: "setIndex current part < length (setChildren current part)"
  by (auto simp: setIndex_def setChildren_def split: option.splits dest: findChild_Some)

lemma setChildren_old:
  "j < length (Children current) \<Longrightarrow> setChildren current part ! j = Children current ! j"
  by (simp add: setChildren_def nth_append split: option.splits)

lemma setChildren_length:
  "length (setChildren current part) =
    (if findChild (Children current) part = None then Suc (length (Children current))
     else length (Children current))"
  by (simp add: setChildren_def split: option.splits)

lemma setIndex_old:
  "setIndex current part < length (Children current) \<longleftrightarrow>
     findChild (Children current) part \<noteq> None"
  by (auto simp: setIndex_def split: option.splits dest: findChild_Some)

lemma setChild_new:
  "findChild (Children current) part = None \<Longrightarrow>
   setChildren current part ! setIndex current part = Node part [] []"
  by (simp add: setIndex_def setChildren_def)

lemma setChild_Name: "Name (setChildren current part ! setIndex current part) = part"
  by (auto simp: setIndex_def setChildren_def split: option.splits dest: findChild_Some)

text \<open>
  Nodes are addressed by their position, the list of child indices from the root.
  \<open>Set_pos\<close> is the position of the node \<^verbatim>\<open>Set\<close> returns (the final addressed node),
  \<open>nodes\<close> counts the nodes of a tree, and \<open>missingSegs\<close> counts the non-empty parts of a
  path that name no existing node (the parts \<^verbatim>\<open>Get\<close> cannot resolve).
\<close>

fun subtree :: "Node \<Rightarrow> nat list \<Rightarrow> Node option" where
  "subtree n [] = Some n"
| "subtree n (k # ks) =
    (if k < length (Children n) then subtree (Children n ! k) ks else None)"

fun Set_pos :: "Node \<Rightarrow> string list \<Rightarrow> nat list" where
  "Set_pos current [] = []"
| "Set_pos current (part # parts) =
    (if part = [] then Set_pos current parts
     else (case findChild (Children current) part of
             None \<Rightarrow> length (Children current) # Set_pos (Node part [] []) parts
           | Some k \<Rightarrow> k # Set_pos (Children current ! k) parts))"

fun nodes :: "Node \<Rightarrow> nat" where
  "nodes (Node name val children) = Suc (sum_list (map nodes children))"

fun missingSegs :: "Node \<Rightarrow> string list \<Rightarrow> nat" where
  "missingSegs current [] = 0"
| "missingSegs current (part # parts) =
    (if part = [] then missingSegs current parts
     else (case findChild (Children current) part of
             None \<Rightarrow> Suc (missingSegs (Node part [] []) parts)
           | Some k \<Rightarrow> missingSegs (Children current ! k) parts))"

lemma Set_pos_Cons:
  "part \<noteq> [] \<Longrightarrow>
   Set_pos current (part # parts) =
     setIndex current part # Set_pos (setChildren current part ! setIndex current part) parts"
  by (simp add: setIndex_def setChildren_def split: option.splits)

lemma missingSegs_Cons:
  "part \<noteq> [] \<Longrightarrow>
   missingSegs current (part # parts) =
     (if findChild (Children current) part = None then 1 else 0) +
     missingSegs (setChildren current part ! setIndex current part) parts"
  by (simp add: setIndex_def setChildren_def split: option.splits)

declare Set_loop.simps(2) [simp del]

text \<open>What a round of the loop does to the child it goes to.\<close>

definition setRest :: "Node \<Rightarrow> string list \<Rightarrow> string \<Rightarrow> Node \<times> Node" where
  "setRest found parts val =
    (if parts = [] then
       (Node (Name found) val (Children found), Node (Name found) val (Children found))
     else Set_loop found parts val)"

lemma Set_loop_Cons:
  "part \<noteq> [] \<Longrightarrow>
   Set_loop current (part # parts) val =
     (Node (Name current) (Value current)
        ((setChildren current part)
           [setIndex current part :=
              fst (setRest (setChildren current part ! setIndex current part) parts val)]),
      snd (setRest (setChildren current part ! setIndex current part) parts val))"
  by (cases "parts = []") (simp_all add: Set_loop_last Set_loop_inner setRest_def)

lemma Set_loop_root:
  "Name (fst (Set_loop current parts val)) = Name current \<and>
   Value (fst (Set_loop current parts val)) = Value current"
proof (induction parts)
  case Nil
  show ?case by simp
next
  case (Cons part parts)
  then show ?case
    by (cases "part = []") (simp_all add: Set_loop_Cons Set_loop_empty)
qed

lemma Set_pos_empty: "Set_pos current ([] # parts) = Set_pos current parts"
  by simp

lemma missingSegs_empty: "missingSegs current ([] # parts) = missingSegs current parts"
  by simp

declare Set_pos.simps(2) [simp del] missingSegs.simps(2) [simp del]

lemma setRest_root:
  "Name (fst (setRest found parts val)) = Name found"
  by (simp add: setRest_def Set_loop_root)

lemma Set_result_pos:
  "subtree (fst (Set_loop current parts val)) (Set_pos current parts) =
     Some (snd (Set_loop current parts val))"
proof (induction parts arbitrary: current)
  case Nil
  show ?case by simp
next
  case (Cons part parts)
  show ?case
  proof (cases "part = []")
    case True
    with Cons show ?thesis by (simp add: Set_loop_empty Set_pos_empty)
  next
    case False
    let ?k = "setIndex current part"
    let ?cs = "setChildren current part"
    have k: "?k < length ?cs" by (rule setIndex_lt)
    show ?thesis
    proof (cases "parts = []")
      case True
      with False k show ?thesis
        by (simp add: Set_loop_Cons Set_pos_Cons setRest_def)
    next
      case ne: False
      with False k Cons [of "?cs ! ?k"] show ?thesis
        by (simp add: Set_loop_Cons Set_pos_Cons setRest_def)
    qed
  qed
qed

lemma Set_frame_old:
  "subtree current pos = Some a \<Longrightarrow>
   \<exists>b. subtree (fst (Set_loop current parts val)) pos = Some b \<and> Name b = Name a \<and>
       (pos \<noteq> Set_pos current parts \<longrightarrow> Value b = Value a) \<and>
       length (Children a) \<le> length (Children b) \<and>
       length (Children b) \<le> Suc (length (Children a))"
proof (induction parts arbitrary: current pos a)
  case Nil
  then show ?case by simp
next
  case (Cons part parts)
  note IH = Cons.IH and prems = Cons.prems
  show ?case
  proof (cases "part = []")
    case True
    with IH prems show ?thesis by (simp add: Set_loop_empty Set_pos_empty)
  next
    case False
    let ?k = "setIndex current part"
    let ?cs = "setChildren current part"
    let ?found = "?cs ! ?k"
    let ?f' = "fst (setRest ?found parts val)"
    let ?cur' = "Node (Name current) (Value current) (?cs[?k := ?f'])"
    have k: "?k < length ?cs" by (rule setIndex_lt)
    have cur': "fst (Set_loop current (part # parts) val) = ?cur'"
      using False by (simp add: Set_loop_Cons)
    have sp: "Set_pos current (part # parts) = ?k # Set_pos ?found parts"
      using False by (rule Set_pos_Cons)
    show ?thesis
    proof (cases pos)
      case Nil
      with prems have "a = current" by simp
      with Nil cur' sp show ?thesis by (simp add: setChildren_length)
    next
      case (Cons j js)
      with prems have j: "j < length (Children current)"
        and sub: "subtree (Children current ! j) js = Some a"
        by (auto split: if_splits)
      have jl: "j < length ?cs" using j by (simp add: setChildren_length)
      show ?thesis
      proof (cases "j = ?k")
        case ne: False
        then have "(?cs[?k := ?f']) ! j = Children current ! j"
          using j by (simp add: setChildren_old)
        with jl sub have "subtree ?cur' pos = Some a" using Cons by simp
        with cur' show ?thesis by simp
      next
        case eq: True
        then have found: "?found = Children current ! j" using j by (simp add: setChildren_old)
        have nth: "(?cs[?k := ?f']) ! j = ?f'" using eq k by simp
        show ?thesis
        proof (cases "parts = []")
          case True
          then have f': "?f' = Node (Name ?found) val (Children ?found)"
            by (simp add: setRest_def)
          show ?thesis
          proof (cases js)
            case Nil
            with sub found have a: "a = ?found" by simp
            have p: "pos = Set_pos current (part # parts)"
              using sp True eq Nil \<open>pos = j # js\<close> by simp
            have "subtree ?cur' pos = Some ?f'"
              using Nil \<open>pos = j # js\<close> nth jl by simp
            then have "subtree (fst (Set_loop current (part # parts) val)) pos = Some ?f'"
              using cur' by simp
            moreover have "Name ?f' = Name a" "length (Children a) \<le> length (Children ?f')"
              "length (Children ?f') \<le> Suc (length (Children a))"
              using a f' by simp_all
            ultimately show ?thesis using p by blast
          next
            case (Cons i is')
            have ch: "Children ?f' = Children ?found" by (simp only: f' Node.sel)
            have "subtree ?f' js = subtree ?found js"
              unfolding Cons subtree.simps ch ..
            with sub found have "subtree ?f' js = Some a" by simp
            moreover have "pos \<noteq> Set_pos current (part # parts)"
              using sp True \<open>pos = j # js\<close> Cons by simp
            ultimately show ?thesis using \<open>pos = j # js\<close> cur' nth jl by simp
          qed
        next
          case ne: False
          then have f': "?f' = fst (Set_loop ?found parts val)" by (simp add: setRest_def)
          from sub found have "subtree ?found js = Some a" by simp
          from IH [OF this] obtain b where
            b: "subtree (fst (Set_loop ?found parts val)) js = Some b" "Name b = Name a"
            "js \<noteq> Set_pos ?found parts \<longrightarrow> Value b = Value a"
            "length (Children a) \<le> length (Children b)"
            "length (Children b) \<le> Suc (length (Children a))"
            by blast
          have "subtree ?cur' pos = Some b" using Cons nth jl b(1) f' by simp
          moreover have "pos \<noteq> Set_pos current (part # parts) \<longrightarrow> Value b = Value a"
            using b(3) sp Cons eq by simp
          ultimately show ?thesis using cur' b(2,4,5) by simp
        qed
      qed
    qed
  qed
qed

lemma subtree_leaf: "subtree (Node name val []) pos = Some b \<Longrightarrow> pos = []"
  by (cases pos) simp_all

lemma Set_children_bound:
  "length (Children (fst (Set_loop current parts val))) \<le> Suc (length (Children current))"
  using Set_frame_old [of current "[]" current parts val] by simp

lemma Set_frame_new:
  "subtree current pos = None \<Longrightarrow>
   subtree (fst (Set_loop current parts val)) pos = Some b \<Longrightarrow>
   (pos \<noteq> Set_pos current parts \<longrightarrow> Value b = []) \<and> length (Children b) \<le> 1 \<and>
   take (length pos) (Set_pos current parts) = pos"
proof (induction parts arbitrary: current pos)
  case Nil
  then show ?case by simp
next
  case (Cons part parts)
  note IH = Cons.IH and prems = Cons.prems
  show ?case
  proof (cases "part = []")
    case True
    with IH prems show ?thesis by (simp add: Set_loop_empty Set_pos_empty)
  next
    case False
    let ?k = "setIndex current part"
    let ?cs = "setChildren current part"
    let ?found = "?cs ! ?k"
    let ?f' = "fst (setRest ?found parts val)"
    let ?cur' = "Node (Name current) (Value current) (?cs[?k := ?f'])"
    have k: "?k < length ?cs" by (rule setIndex_lt)
    have cur': "fst (Set_loop current (part # parts) val) = ?cur'"
      using False by (simp add: Set_loop_Cons)
    have sp: "Set_pos current (part # parts) = ?k # Set_pos ?found parts"
      using False by (rule Set_pos_Cons)
    from prems(1) obtain j js where pos: "pos = j # js" by (cases pos) auto
    from prems(2) cur' pos have jl: "j < length ?cs"
      and sub': "subtree ((?cs[?k := ?f']) ! j) js = Some b"
      by (auto split: if_splits)
    have jk: "j = ?k"
    proof (rule ccontr)
      assume ne: "j \<noteq> ?k"
      show False
      proof (cases "j < length (Children current)")
        case True
        with ne sub' have "subtree (Children current ! j) js = Some b"
          by (simp add: setChildren_old)
        with True prems(1) pos show False by simp
      next
        case False
        with jl have "findChild (Children current) part = None" "j = length (Children current)"
          by (auto simp: setChildren_length split: if_splits)
        then have "j = ?k" by (simp add: setIndex_def)
        with ne show False by simp
      qed
    qed
    with sub' k have sub: "subtree ?f' js = Some b" by simp
    show ?thesis
    proof (cases "findChild (Children current) part = None")
      case new: True
      then have found: "?found = Node part [] []" by (rule setChild_new)
      show ?thesis
      proof (cases "parts = []")
        case True
        then have f': "?f' = Node part val []" using found by (simp add: setRest_def)
        with sub have "js = []" "b = Node part val []"
          using subtree_leaf [of part val js b] by auto
        then show ?thesis using pos jk sp True by (simp add: Set_pos.simps(1))
      next
        case ne: False
        then have f': "?f' = fst (Set_loop (Node part [] []) parts val)"
          using found by (simp add: setRest_def)
        show ?thesis
        proof (cases js)
          case Nil
          with sub f' have b: "b = fst (Set_loop (Node part [] []) parts val)" by simp
          then have "Value b = []" using Set_loop_root [of "Node part [] []" parts val] by simp
          moreover have "length (Children b) \<le> 1"
            using b Set_children_bound [of "Node part [] []" parts val] by simp
          ultimately show ?thesis using pos jk sp Nil by simp
        next
          case (Cons i is')
          then have "subtree (Node part [] []) js = None" by simp
          from IH [OF this] sub f' found
          have "(js \<noteq> Set_pos ?found parts \<longrightarrow> Value b = []) \<and> length (Children b) \<le> 1 \<and>
              take (length js) (Set_pos ?found parts) = js" by simp
          then show ?thesis using pos jk sp by simp
        qed
      qed
    next
      case old: False
      then have kl: "?k < length (Children current)" by (simp add: setIndex_old)
      then have found: "?found = Children current ! ?k" by (simp add: setChildren_old)
      from prems(1) pos jk kl have none: "subtree ?found js = None" by (simp add: found)
      show ?thesis
      proof (cases "parts = []")
        case True
        then have f': "?f' = Node (Name ?found) val (Children ?found)"
          by (simp add: setRest_def)
        have ch: "Children ?f' = Children ?found" by (simp only: f' Node.sel)
        from none obtain i is' where js: "js = i # is'" by (cases js) auto
        have "subtree ?f' js = subtree ?found js"
          unfolding js subtree.simps ch ..
        with sub none show ?thesis by simp
      next
        case ne: False
        then have f': "?f' = fst (Set_loop ?found parts val)" by (simp add: setRest_def)
        from IH [OF none] sub f'
        have "(js \<noteq> Set_pos ?found parts \<longrightarrow> Value b = []) \<and> length (Children b) \<le> 1 \<and>
            take (length js) (Set_pos ?found parts) = js" by simp
        then show ?thesis using pos jk sp by simp
      qed
    qed
  qed
qed

lemma nodes_sel: "nodes n = Suc (sum_list (map nodes (Children n)))"
  by (cases n) simp

lemma sum_list_nodes_update:
  "k < length cs \<Longrightarrow>
   sum_list (map nodes (cs[k := x])) + nodes (cs ! k) = sum_list (map nodes cs) + nodes x"
proof (induction cs arbitrary: k)
  case Nil
  then show ?case by simp
next
  case (Cons c cs)
  then show ?case by (cases k) auto
qed

lemma setChildren_nodes:
  "sum_list (map nodes (setChildren current part)) =
    sum_list (map nodes (Children current)) +
    (if findChild (Children current) part = None then 1 else 0)"
  by (simp add: setChildren_def split: option.splits)

lemma Set_nodes:
  "nodes (fst (Set_loop current parts val)) = nodes current + missingSegs current parts"
proof (induction parts arbitrary: current)
  case Nil
  show ?case by simp
next
  case (Cons part parts)
  show ?case
  proof (cases "part = []")
    case True
    with Cons show ?thesis by (simp add: Set_loop_empty missingSegs_empty)
  next
    case False
    let ?k = "setIndex current part"
    let ?cs = "setChildren current part"
    let ?found = "?cs ! ?k"
    let ?f' = "fst (setRest ?found parts val)"
    have k: "?k < length ?cs" by (rule setIndex_lt)
    have f': "nodes ?f' = nodes ?found + missingSegs ?found parts"
    proof (cases "parts = []")
      case True
      then show ?thesis by (simp add: setRest_def nodes_sel [of ?found])
    next
      case False
      then show ?thesis using Cons [of ?found] by (simp add: setRest_def)
    qed
    have "nodes (fst (Set_loop current (part # parts) val)) =
        Suc (sum_list (map nodes (?cs[?k := ?f'])))"
      using False by (simp add: Set_loop_Cons)
    moreover have "sum_list (map nodes (?cs[?k := ?f'])) + nodes ?found =
        sum_list (map nodes ?cs) + nodes ?f'"
      using k by (rule sum_list_nodes_update)
    ultimately show ?thesis
      using f' False by (simp add: missingSegs_Cons setChildren_nodes nodes_sel [of current])
  qed
qed

lemma subtree_snoc:
  "subtree n (pos @ [i]) =
    (case subtree n pos of
       None \<Rightarrow> None
     | Some a \<Rightarrow> if i < length (Children a) then Some (Children a ! i) else None)"
  by (induction n pos rule: subtree.induct) auto

lemma Set_new_index:
  assumes "subtree current pos = Some a" and "subtree current (pos @ [i]) = None"
    and "subtree (fst (Set_loop current parts val)) (pos @ [i]) = Some b"
  shows "i = length (Children a)"
proof -
  from Set_frame_old [OF assms(1), of parts val] obtain a' where
    a': "subtree (fst (Set_loop current parts val)) pos = Some a'"
    "length (Children a') \<le> Suc (length (Children a))" by blast
  from assms(3) a'(1) have "i < length (Children a')"
    by (simp add: subtree_snoc split: if_splits)
  moreover from assms(1,2) have "\<not> i < length (Children a)"
    by (simp add: subtree_snoc split: if_splits)
  ultimately show ?thesis using a'(2) by simp
qed

lemma missingSegs_Get:
  "Get_loop current parts = None \<longleftrightarrow> 0 < missingSegs current parts"
proof (induction parts arbitrary: current)
  case Nil
  show ?case by simp
next
  case (Cons part parts)
  then show ?case
    by (cases "part = []")
      (simp_all add: missingSegs_empty missingSegs.simps(2) split: option.splits)
qed

text \<open>
  C10. \<^verbatim>\<open>Set\<close> on a root with a path and a value leaves every node of the old tree at its
  position, with its name, with its value unless it is the node the call returns, and with
  its children in place, at most one more behind them. A node that is new has the empty
  value unless it is the returned node, at most one child, lies on the way to the returned
  node, and is the child right behind the old children of its parent. The tree grows by
  one node for each non-empty part of the path that named no node before (the parts
  \<^verbatim>\<open>Get\<close> could not resolve).
\<close>

theorem C10_Set_frame:
  assumes "Node_Set (Some root) path val = (Some root', Some result)"
  shows "subtree root' (Set_pos root (Split path (CHR ''/''))) = Some result \<and>
    (\<forall>pos a. subtree root pos = Some a \<longrightarrow>
       (\<exists>b. subtree root' pos = Some b \<and> Name b = Name a \<and>
          (pos \<noteq> Set_pos root (Split path (CHR ''/'')) \<longrightarrow> Value b = Value a) \<and>
          length (Children a) \<le> length (Children b) \<and>
          length (Children b) \<le> Suc (length (Children a)))) \<and>
    (\<forall>pos b. subtree root pos = None \<and> subtree root' pos = Some b \<longrightarrow>
       (pos \<noteq> Set_pos root (Split path (CHR ''/'')) \<longrightarrow> Value b = []) \<and>
       length (Children b) \<le> 1 \<and>
       take (length pos) (Set_pos root (Split path (CHR ''/''))) = pos) \<and>
    (\<forall>pos i a b. subtree root pos = Some a \<and> subtree root (pos @ [i]) = None \<and>
       subtree root' (pos @ [i]) = Some b \<longrightarrow> i = length (Children a)) \<and>
    nodes root' = nodes root + missingSegs root (Split path (CHR ''/'')) \<and>
    (Get_loop root (Split path (CHR ''/'')) = None \<longleftrightarrow>
       0 < missingSegs root (Split path (CHR ''/'')))"
proof -
  let ?parts = "Split path (CHR ''/'')"
  from assms have r: "root' = fst (Set_loop root ?parts val)"
    and s: "result = snd (Set_loop root ?parts val)"
    by (auto simp: Node_Set_def Let_def split: prod.splits)
  have 1: "subtree root' (Set_pos root ?parts) = Some result"
    unfolding r s by (rule Set_result_pos)
  have 2: "\<forall>pos a. subtree root pos = Some a \<longrightarrow>
       (\<exists>b. subtree root' pos = Some b \<and> Name b = Name a \<and>
          (pos \<noteq> Set_pos root ?parts \<longrightarrow> Value b = Value a) \<and>
          length (Children a) \<le> length (Children b) \<and>
          length (Children b) \<le> Suc (length (Children a)))"
    unfolding r using Set_frame_old by blast
  have 3: "\<forall>pos b. subtree root pos = None \<and> subtree root' pos = Some b \<longrightarrow>
       (pos \<noteq> Set_pos root ?parts \<longrightarrow> Value b = []) \<and>
       length (Children b) \<le> 1 \<and>
       take (length pos) (Set_pos root ?parts) = pos"
    unfolding r using Set_frame_new by blast
  have 4: "\<forall>pos i a b. subtree root pos = Some a \<and> subtree root (pos @ [i]) = None \<and>
       subtree root' (pos @ [i]) = Some b \<longrightarrow> i = length (Children a)"
    unfolding r using Set_new_index by blast
  have 5: "nodes root' = nodes root + missingSegs root ?parts"
    unfolding r by (rule Set_nodes)
  have 6: "Get_loop root ?parts = None \<longleftrightarrow> 0 < missingSegs root ?parts"
    by (rule missingSegs_Get)
  show ?thesis using 1 2 3 4 5 6 by (intro conjI)
qed

theorem C10_Set_frame_witness:
  "Node_Set (Some (Node [] [] [Node ''A'' ''1'' [Node ''B'' ''2'' []]])) ''A/C/D'' ''v'' =
     (Some (Node [] [] [Node ''A'' ''1'' [Node ''B'' ''2'' [], Node ''C'' [] [Node ''D'' ''v'' []]]]),
      Some (Node ''D'' ''v'' [])) \<and>
   Set_pos (Node [] [] [Node ''A'' ''1'' [Node ''B'' ''2'' []]]) (Split ''A/C/D'' (CHR ''/'')) =
     [0, 1, 0] \<and>
   subtree (Node [] [] [Node ''A'' ''1'' [Node ''B'' ''2'' [], Node ''C'' [] [Node ''D'' ''v'' []]]])
     (Set_pos (Node [] [] [Node ''A'' ''1'' [Node ''B'' ''2'' []]]) (Split ''A/C/D'' (CHR ''/''))) =
     Some (Node ''D'' ''v'' []) \<and>
   subtree (Node [] [] [Node ''A'' ''1'' [Node ''B'' ''2'' []]]) [0] =
     Some (Node ''A'' ''1'' [Node ''B'' ''2'' []]) \<and>
   (\<exists>b. subtree
          (Node [] [] [Node ''A'' ''1'' [Node ''B'' ''2'' [], Node ''C'' [] [Node ''D'' ''v'' []]]])
          [0] = Some b \<and>
        Name b = Name (Node ''A'' ''1'' [Node ''B'' ''2'' []]) \<and>
        Value b = Value (Node ''A'' ''1'' [Node ''B'' ''2'' []]) \<and>
        length (Children (Node ''A'' ''1'' [Node ''B'' ''2'' []])) \<le> length (Children b) \<and>
        length (Children b) \<le> Suc (length (Children (Node ''A'' ''1'' [Node ''B'' ''2'' []])))) \<and>
   subtree (Node [] [] [Node ''A'' ''1'' [Node ''B'' ''2'' []]]) [0, 1] = None \<and>
   subtree (Node [] [] [Node ''A'' ''1'' [Node ''B'' ''2'' [], Node ''C'' [] [Node ''D'' ''v'' []]]])
     [0, 1] = Some (Node ''C'' [] [Node ''D'' ''v'' []]) \<and>
   Value (Node ''C'' [] [Node ''D'' ''v'' []]) = [] \<and>
   (1::nat) = length (Children (Node ''A'' ''1'' [Node ''B'' ''2'' []])) \<and>
   nodes (Node [] [] [Node ''A'' ''1'' [Node ''B'' ''2'' [], Node ''C'' [] [Node ''D'' ''v'' []]]]) =
     nodes (Node [] [] [Node ''A'' ''1'' [Node ''B'' ''2'' []]]) +
     missingSegs (Node [] [] [Node ''A'' ''1'' [Node ''B'' ''2'' []]]) (Split ''A/C/D'' (CHR ''/'')) \<and>
   missingSegs (Node [] [] [Node ''A'' ''1'' [Node ''B'' ''2'' []]]) (Split ''A/C/D'' (CHR ''/'')) = 2"
proof -
  let ?A = "Node ''A'' ''1'' [Node ''B'' ''2'' []]"
  let ?C = "Node ''C'' [] [Node ''D'' ''v'' []]"
  let ?root = "Node [] [] [?A]"
  let ?root' = "Node [] [] [Node ''A'' ''1'' [Node ''B'' ''2'' [], ?C]]"
  let ?res = "Node ''D'' ''v'' []"
  let ?parts = "Split ''A/C/D'' (CHR ''/'')"
  have h: "Node_Set (Some ?root) ''A/C/D'' ''v'' = (Some ?root', Some ?res)" by code_simp
  note c = C10_Set_frame [OF h]
  have sp: "Set_pos ?root ?parts = [0, 1, 0]" by code_simp
  have w1: "subtree ?root' (Set_pos ?root ?parts) = Some ?res" using c [THEN conjunct1] .
  have o: "subtree ?root [0] = Some ?A" by simp
  have ne: "[0] \<noteq> Set_pos ?root ?parts" using sp by simp
  from c [THEN conjunct2, THEN conjunct1, rule_format, OF o] ne
  have w2: "\<exists>b. subtree ?root' [0] = Some b \<and> Name b = Name ?A \<and> Value b = Value ?A \<and>
        length (Children ?A) \<le> length (Children b) \<and>
        length (Children b) \<le> Suc (length (Children ?A))" by blast
  have n1: "subtree ?root [0, 1] = None" by simp
  have n2: "subtree ?root' [0, 1] = Some ?C" by simp
  have ne2: "[0, 1] \<noteq> Set_pos ?root ?parts" using sp by simp
  from c [THEN conjunct2, THEN conjunct2, THEN conjunct1, rule_format, OF conjI [OF n1 n2]] ne2
  have w3: "Value ?C = []" by blast
  have n1': "subtree ?root ([0] @ [1]) = None" by simp
  have n2': "subtree ?root' ([0] @ [1]) = Some ?C" by simp
  have w4: "(1::nat) = length (Children ?A)"
    using c [THEN conjunct2, THEN conjunct2, THEN conjunct2, THEN conjunct1, rule_format,
        OF conjI [OF o conjI [OF n1' n2']]] .
  have w5: "nodes ?root' = nodes ?root + missingSegs ?root ?parts"
    using c [THEN conjunct2, THEN conjunct2, THEN conjunct2, THEN conjunct2, THEN conjunct1] .
  have m: "missingSegs ?root ?parts = 2" by code_simp
  show ?thesis using h sp w1 o w2 n1 n2 w3 w4 w5 m by (intro conjI)
qed

section \<open>Paths with empty parts\<close>

text \<open>
  C3 at a path with a trailing slash. \<^verbatim>\<open>Set("A/", "v")\<close> on an empty root creates \<^verbatim>\<open>A\<close>,
  returns it and leaves its value empty: the last part of the split path is empty, the
  loop skips it, and the assignment under \<^verbatim>\<open>i == len(parts)-1\<close> is never reached.
  \<^verbatim>\<open>Get("A/")\<close> then yields the node \<^verbatim>\<open>A\<close> with the empty value, not \<^verbatim>\<open>v\<close>.
\<close>

theorem C3_Set_trailing_slash:
  "Split ''A/'' (CHR ''/'') = [''A'', []] \<and>
   Node_Set (Some (Node [] [] [])) ''A/'' ''v'' =
     (Some (Node [] [] [Node ''A'' [] []]), Some (Node ''A'' [] [])) \<and>
   Node_Get (fst (Node_Set (Some (Node [] [] [])) ''A/'' ''v'')) ''A/'' =
     Some (Node ''A'' [] []) \<and>
   Node_Set (Some (Node [] [] [])) ''A'' ''v'' =
     (Some (Node [] [] [Node ''A'' ''v'' []]), Some (Node ''A'' ''v'' []))"
  by code_simp

text \<open>
  C4 at the same kind of path. On the tree \<^verbatim>\<open>A\<close> with the child \<^verbatim>\<open>B: old\<close>, \<^verbatim>\<open>Get\<close> resolves
  \<^verbatim>\<open>A/B/\<close> like \<^verbatim>\<open>A/B\<close>, but \<^verbatim>\<open>Set("A/B/", "v")\<close> leaves the value \<^verbatim>\<open>old\<close> where
  \<^verbatim>\<open>Set("A/B", "v")\<close> stores \<^verbatim>\<open>v\<close>, and \<^verbatim>\<open>Remove("A/B/")\<close> looks for a child of \<^verbatim>\<open>B\<close> with the
  empty name and removes nothing where \<^verbatim>\<open>Remove("A/B")\<close> removes \<^verbatim>\<open>B\<close>.
\<close>

theorem C4_trailing_slash:
  "Node_Get (Some (Node [] [] [Node ''A'' [] [Node ''B'' ''old'' []]])) ''A/B/'' =
     Node_Get (Some (Node [] [] [Node ''A'' [] [Node ''B'' ''old'' []]])) ''A/B'' \<and>
   Node_Set (Some (Node [] [] [Node ''A'' [] [Node ''B'' ''old'' []]])) ''A/B/'' ''v'' =
     (Some (Node [] [] [Node ''A'' [] [Node ''B'' ''old'' []]]), Some (Node ''B'' ''old'' [])) \<and>
   Node_Set (Some (Node [] [] [Node ''A'' [] [Node ''B'' ''old'' []]])) ''A/B'' ''v'' =
     (Some (Node [] [] [Node ''A'' [] [Node ''B'' ''v'' []]]), Some (Node ''B'' ''v'' [])) \<and>
   Node_Remove (Some (Node [] [] [Node ''A'' [] [Node ''B'' ''old'' []]])) ''A/B/'' =
     (Some (Node [] [] [Node ''A'' [] [Node ''B'' ''old'' []]]), False) \<and>
   Node_Remove (Some (Node [] [] [Node ''A'' [] [Node ''B'' ''old'' []]])) ''A/B'' =
     (Some (Node [] [] [Node ''A'' [] []]), True)"
  by code_simp

section \<open>The round trip through the serializer\<close>

text \<open>The text \<^verbatim>\<open>serializeNode\<close> writes, as the list of its lines.\<close>

definition unlines :: "string list \<Rightarrow> string" where
  "unlines ls = concat (map (\<lambda>l. l @ [LF]) ls)"

fun nodeLines :: "Node \<Rightarrow> nat \<Rightarrow> string list" where
  "nodeLines (Node name val children) depth =
    (if val \<noteq> [] then
       (if Contains val LF then
          (replicate (depth * 2) SP @ name) #
          map (\<lambda>line. replicate ((depth + 1) * 2) SP @ '': '' @ line) (Split val LF)
        else [replicate (depth * 2) SP @ name @ '': '' @ val])
     else [replicate (depth * 2) SP @ name]) @
    concat (map (\<lambda>child. nodeLines child (depth + 1)) children)"

declare nodeLines.simps [simp del]

lemma unlines_Nil: "unlines [] = []"
  by (simp add: unlines_def)

lemma unlines_Cons: "unlines (l # ls) = l @ [LF] @ unlines ls"
  by (simp add: unlines_def)

lemma unlines_append: "unlines (xs @ ys) = unlines xs @ unlines ys"
  by (simp add: unlines_def)

lemma unlines_concat: "unlines (concat xss) = concat (map unlines xss)"
  by (induction xss) (simp_all add: unlines_Nil unlines_append)

lemma unlines_map:
  "unlines (map f xs) = concat (map (\<lambda>x. f x @ [LF]) xs)"
  by (simp add: unlines_def comp_def)

lemma serializeNode_lines: "serializeNode n depth = unlines (nodeLines n depth)"
proof (induction n depth rule: serializeNode.induct)
  case (1 name val children depth)
  have "map (\<lambda>child. serializeNode child (Suc depth)) children =
      map (\<lambda>child. unlines (nodeLines child (Suc depth))) children"
    using 1 by (cases "\<not> Contains val LF \<or> val = []") auto
  then have "concat (map (\<lambda>child. serializeNode child (Suc depth)) children) =
      concat (map (\<lambda>child. unlines (nodeLines child (Suc depth))) children)"
    by (rule arg_cong)
  then have ch: "concat (map (\<lambda>child. serializeNode child (Suc depth)) children) =
      unlines (concat (map (\<lambda>child. nodeLines child (Suc depth)) children))"
    by (simp only: unlines_concat map_map comp_def)
  show ?case
    by (subst serializeNode.simps, subst nodeLines.simps)
      (simp add: ch unlines_append unlines_Cons unlines_Nil unlines_map)
qed

lemma Serialize_lines:
  "Serialize (Some (Document (Some root))) =
     unlines (concat (map (\<lambda>child. nodeLines child 0) (Children root)))"
  by (simp add: Serialize_def serializeNode_lines unlines_concat comp_def)

text \<open>\<^verbatim>\<open>normalizeLines\<close> on a text without carriage returns, line by line.\<close>

lemma ReplaceAll_none:
  "\<forall>i. \<not> HasPrefix (drop i s) old \<Longrightarrow> ReplaceAll s old new = s"
proof (induction s old new rule: ReplaceAll.induct)
  case (1 s old new)
  show ?case
  proof (cases "s = [] \<or> old = []")
    case True
    then show ?thesis by (subst ReplaceAll.simps) simp
  next
    case False
    from 1(3) have np: "\<not> HasPrefix s old" by (metis drop0)
    have "\<forall>i. \<not> HasPrefix (drop i (tl s)) old"
      using 1(3) by (metis drop_Suc)
    with 1(2) [OF False np] have "ReplaceAll (tl s) old new = tl s" by simp
    with False np show ?thesis by (subst ReplaceAll.simps) simp
  qed
qed

lemma HasPrefix_hd: "HasPrefix s (c # cs) \<Longrightarrow> s \<noteq> [] \<and> hd s = c"
  by (cases s) (auto simp: HasPrefix_def)

lemma ReplaceAll_CR:
  assumes "CR \<notin> set s"
  shows "ReplaceAll s (CR # old) new = s"
proof (rule ReplaceAll_none, intro allI notI)
  fix i
  assume "HasPrefix (drop i s) (CR # old)"
  then have "drop i s \<noteq> [] \<and> hd (drop i s) = CR" by (rule HasPrefix_hd)
  then have "drop i s \<noteq> []" "hd (drop i s) = CR" by simp_all
  then have "CR \<in> set (drop i s)" by (metis hd_in_set)
  then have "CR \<in> set s" by (metis in_set_dropD)
  with assms show False by simp
qed

lemma Split_nonempty: "Split s sep \<noteq> []"
  by (induction s) (auto split: list.splits)

lemma Split_line: "sep \<notin> set l \<Longrightarrow> Split (l @ sep # rest) sep = l # Split rest sep"
  by (induction l) (auto split: list.splits simp: Split_nonempty)

lemma Split_unlines:
  "\<forall>l \<in> set ls. LF \<notin> set l \<Longrightarrow> Split (unlines ls) LF = ls @ [[]]"
  by (induction ls) (simp_all add: unlines_Nil unlines_Cons Split_line)

text \<open>
  A line that \<^verbatim>\<open>strings.TrimSpace\<close> empties consists of bytes of whitespace runes: the six
  ASCII ones and bytes from 128 on. A line with a name or a colon is therefore kept.
\<close>

definition spaceByte :: "char \<Rightarrow> bool" where
  "spaceByte c = (128 \<le> (of_char c :: nat) \<or> (of_char c :: nat) \<in> {9, 10, 11, 12, 13, 32})"

lemma isSpaceRune_bytes:
  "isSpaceRune bs \<Longrightarrow> b \<in> set bs \<Longrightarrow> 128 \<le> b \<or> b \<in> {9, 10, 11, 12, 13, 32}"
  by (induction bs rule: isSpaceRune.induct) auto

lemma isSpaceRune_chars:
  assumes "isSpaceRune (map of_char cs)" and "c \<in> set cs"
  shows "spaceByte c"
proof -
  from assms(2) have "(of_char c :: nat) \<in> set (map of_char cs)" by simp
  from isSpaceRune_bytes [OF assms(1) this] show ?thesis by (simp add: spaceByte_def)
qed

lemma leadingSpace_rune:
  "leadingSpace s \<noteq> 0 \<Longrightarrow> isSpaceRune (map of_char (take (leadingSpace s) s))"
  by (auto simp: leadingSpace_def split: if_splits)

lemma trailingSpace_rune:
  "trailingSpace s \<noteq> 0 \<Longrightarrow>
   isSpaceRune (map of_char (drop (length s - trailingSpace s) s))"
  by (auto simp: trailingSpace_def split: if_splits)

lemma TrimLeftSpace_split:
  "\<exists>a. s = a @ TrimLeftSpace s \<and> (\<forall>c \<in> set a. spaceByte c)"
proof (induction s rule: TrimLeftSpace.induct)
  case (1 s)
  show ?case
  proof (cases "leadingSpace s = 0")
    case True
    then have "TrimLeftSpace s = s" by (subst TrimLeftSpace.simps) simp
    then show ?thesis by simp
  next
    case False
    let ?k = "leadingSpace s"
    from False have e: "TrimLeftSpace s = TrimLeftSpace (drop ?k s)"
      by (subst TrimLeftSpace.simps) simp
    from 1 [OF False] obtain a where
      a: "drop ?k s = a @ TrimLeftSpace (drop ?k s)" "\<forall>c \<in> set a. spaceByte c" by blast
    have "s = take ?k s @ drop ?k s" by simp
    with a(1) e have "s = (take ?k s @ a) @ TrimLeftSpace s" by simp
    moreover have "\<forall>c \<in> set (take ?k s @ a). spaceByte c"
      using a(2) isSpaceRune_chars [OF leadingSpace_rune [OF False]] by auto
    ultimately show ?thesis by blast
  qed
qed

lemma TrimRightSpace_empty:
  "TrimRightSpace s = [] \<Longrightarrow> \<forall>c \<in> set s. spaceByte c"
proof (induction s rule: TrimRightSpace.induct)
  case (1 s)
  show ?case
  proof (cases "trailingSpace s = 0")
    case True
    with 1(2) have "s = []" by (subst (asm) TrimRightSpace.simps) simp
    then show ?thesis by simp
  next
    case False
    let ?k = "trailingSpace s"
    from False 1(2) have "TrimRightSpace (take (length s - ?k) s) = []"
      by (subst (asm) TrimRightSpace.simps) simp
    from 1(1) [OF False this] have "\<forall>c \<in> set (take (length s - ?k) s). spaceByte c" .
    moreover have "\<forall>c \<in> set (drop (length s - ?k) s). spaceByte c"
      using isSpaceRune_chars [OF trailingSpace_rune [OF False]] by auto
    moreover have "set s = set (take (length s - ?k) s) \<union> set (drop (length s - ?k) s)"
      by (metis append_take_drop_id set_append)
    ultimately show ?thesis by auto
  qed
qed

lemma TrimSpace_empty:
  assumes "TrimSpace s = []"
  shows "\<forall>c \<in> set s. spaceByte c"
proof -
  obtain a where a: "s = a @ TrimLeftSpace s" "\<forall>c \<in> set a. spaceByte c"
    using TrimLeftSpace_split by blast
  from assms have "\<forall>c \<in> set (TrimLeftSpace s). spaceByte c"
    unfolding TrimSpace_def by (rule TrimRightSpace_empty)
  with a(2) have "\<forall>c \<in> set (a @ TrimLeftSpace s). spaceByte c" by auto
  with a(1) show ?thesis by simp
qed

lemma TrimSpace_Nil: "TrimSpace [] = []"
  by code_simp

lemma keepLine_Nil: "\<not> keepLine []"
  by (simp add: keepLine_def TrimSpace_Nil)

lemma nameChar_no_space: "isValidNameChar c \<Longrightarrow> \<not> spaceByte c \<and> c \<noteq> SP \<and> c \<noteq> TAB \<and> c \<noteq> CHR ''/''"
  by (auto simp: isValidNameChar_def spaceByte_def SP_def TAB_def Let_def)

lemma colon_no_space: "\<not> spaceByte (CHR '':'') \<and> CHR '':'' \<noteq> SP \<and> CHR '':'' \<noteq> TAB"
  by (simp add: spaceByte_def SP_def TAB_def)

lemma readDepth_indent:
  "rest = [] \<or> (hd rest \<noteq> SP \<and> hd rest \<noteq> TAB) \<Longrightarrow> readDepth (replicate n SP @ rest) = n"
proof -
  assume a: "rest = [] \<or> (hd rest \<noteq> SP \<and> hd rest \<noteq> TAB)"
  have "takeWhile (\<lambda>c. c = TAB \<or> c = SP) (replicate n SP @ rest) =
      replicate n SP @ takeWhile (\<lambda>c. c = TAB \<or> c = SP) rest"
    by (rule takeWhile_append2) simp
  moreover have "takeWhile (\<lambda>c. c = TAB \<or> c = SP) rest = []"
    using a by (cases rest) auto
  ultimately show ?thesis by (simp add: readDepth_def)
qed

text \<open>The lines the serializer writes start, after the indentation, with a name or a colon.\<close>

lemma keepLine_indent:
  assumes "rest \<noteq> []" and "isValidNameChar (hd rest) \<or> hd rest = CHR '':''"
  shows "keepLine (replicate n SP @ rest)"
proof -
  let ?line = "replicate n SP @ rest"
  from assms have h: "\<not> spaceByte (hd rest)" "hd rest \<noteq> SP" "hd rest \<noteq> TAB" "hd rest \<noteq> CHR ''/''"
    using nameChar_no_space colon_no_space by auto
  have "hd rest \<in> set ?line" using assms(1) by simp
  with h(1) have "TrimSpace ?line \<noteq> []" using TrimSpace_empty by blast
  moreover have "readDepth ?line = n" using h(2,3) by (simp add: readDepth_indent)
  moreover have "\<not> HasPrefix rest ''//''"
    using h(4) assms(1) by (cases rest) (auto simp: HasPrefix_def)
  ultimately show ?thesis by (simp add: keepLine_def)
qed

lemma normalizeLines_unlines:
  assumes "\<forall>l \<in> set ls. LF \<notin> set l \<and> CR \<notin> set l \<and> keepLine l"
  shows "normalizeLines (unlines ls) = ls"
proof -
  have "CR \<noteq> LF" by (simp add: CR_def LF_def)
  with assms have cr: "CR \<notin> set (unlines ls)" by (auto simp: unlines_def)
  have "filter keepLine (ls @ [[]]) = ls" using assms keepLine_Nil by (simp add: filter_id_conv)
  moreover have "Split (unlines ls) LF = ls @ [[]]" using assms by (simp add: Split_unlines)
  ultimately show ?thesis by (simp add: normalizeLines_def ReplaceAll_CR [OF cr])
qed

text \<open>
  The trees the round trip is proved for. \<open>parsedTree\<close> holds of every tree \<^verbatim>\<open>Parse\<close> returns:
  the names are valid and the values have no carriage return and no leading newline.
  \<open>plainTree\<close> is the further condition on the values: one without a newline, which the
  serializer writes behind a colon on the node's own line, has no trailing space and
  no \<^verbatim>\<open>//\<close> in it.
\<close>

fun hasSlashes :: "string \<Rightarrow> bool" where
  "hasSlashes (a # b # rest) = ((a = CHR ''/'' \<and> b = CHR ''/'') \<or> hasSlashes (b # rest))"
| "hasSlashes [a] = False"
| "hasSlashes [] = False"

definition plainValue :: "string \<Rightarrow> bool" where
  "plainValue v = (if Contains v LF \<or> v = [] then True else last v \<noteq> SP \<and> \<not> hasSlashes v)"

definition parsedValue :: "string \<Rightarrow> bool" where
  "parsedValue v = (CR \<notin> set v \<and> (if v = [] then True else hd v \<noteq> LF))"

definition validName :: "string \<Rightarrow> bool" where
  "validName name = (name \<noteq> [] \<and> list_all isValidNameChar name)"

fun plainTree :: "Node \<Rightarrow> bool" where
  "plainTree (Node name val children) = (plainValue val \<and> list_all plainTree children)"

fun parsedTree :: "Node \<Rightarrow> bool" where
  "parsedTree (Node name val children) =
    (validName name \<and> parsedValue val \<and> list_all parsedTree children)"

text \<open>The lines of a node: its own line, the lines of a value with newlines, the children.\<close>

definition headerLine :: "string \<Rightarrow> string \<Rightarrow> nat \<Rightarrow> string" where
  "headerLine name val depth =
    replicate (depth * 2) SP @ name @ (if val \<noteq> [] \<and> \<not> Contains val LF then '': '' @ val else [])"

definition valueLines :: "string \<Rightarrow> nat \<Rightarrow> string list" where
  "valueLines val depth =
    (if val \<noteq> [] \<and> Contains val LF
     then map (\<lambda>line. replicate ((depth + 1) * 2) SP @ '': '' @ line) (Split val LF) else [])"

lemma nodeLines_eq:
  "nodeLines (Node name val children) depth =
    headerLine name val depth # valueLines val depth @
    concat (map (\<lambda>child. nodeLines child (Suc depth)) children)"
  by (subst nodeLines.simps) (simp add: headerLine_def valueLines_def)

lemma hasSlashes_iff:
  "hasSlashes v \<longleftrightarrow> (\<exists>i. i + 1 < length v \<and> v ! i = CHR ''/'' \<and> v ! (i + 1) = CHR ''/'')"
proof (induction v rule: hasSlashes.induct)
  case (1 a b rest)
  show ?case
  proof
    assume "hasSlashes (a # b # rest)"
    then consider "a = CHR ''/'' \<and> b = CHR ''/''" | "hasSlashes (b # rest)" by auto
    then show "\<exists>i. i + 1 < length (a # b # rest) \<and> (a # b # rest) ! i = CHR ''/'' \<and>
        (a # b # rest) ! (i + 1) = CHR ''/''"
    proof cases
      case 1
      then have "0 + 1 < length (a # b # rest) \<and> (a # b # rest) ! 0 = CHR ''/'' \<and>
        (a # b # rest) ! (0 + 1) = CHR ''/''" by simp
      then show ?thesis by blast
    next
      case 2
      with 1 obtain i where "i + 1 < length (b # rest)" "(b # rest) ! i = CHR ''/''"
        "(b # rest) ! (i + 1) = CHR ''/''" by blast
      then have "Suc i + 1 < length (a # b # rest) \<and> (a # b # rest) ! Suc i = CHR ''/'' \<and>
        (a # b # rest) ! (Suc i + 1) = CHR ''/''" by simp
      then show ?thesis by blast
    qed
  next
    assume "\<exists>i. i + 1 < length (a # b # rest) \<and> (a # b # rest) ! i = CHR ''/'' \<and>
        (a # b # rest) ! (i + 1) = CHR ''/''"
    then obtain i where i: "i + 1 < length (a # b # rest)" "(a # b # rest) ! i = CHR ''/''"
        "(a # b # rest) ! (i + 1) = CHR ''/''" by blast
    show "hasSlashes (a # b # rest)"
    proof (cases i)
      case 0
      with i show ?thesis by simp
    next
      case (Suc j)
      with i have "j + 1 < length (b # rest) \<and> (b # rest) ! j = CHR ''/'' \<and>
          (b # rest) ! (j + 1) = CHR ''/''" by simp
      with 1 have "hasSlashes (b # rest)" by blast
      then show ?thesis by simp
    qed
  qed
qed simp_all

lemma scanName_takeWhile:
  "pos \<le> length line \<Longrightarrow>
   scanName line pos = pos + length (takeWhile isValidNameChar (drop pos line))"
  unfolding scanName_def by (rule advance_takeWhile)

lemma scanName_name:
  assumes "list_all isValidNameChar name" and "rest = [] \<or> \<not> isValidNameChar (hd rest)"
  shows "scanName (replicate n SP @ name @ rest) n = n + length name"
proof -
  have "takeWhile isValidNameChar (name @ rest) = name @ takeWhile isValidNameChar rest"
    using assms(1) by (intro takeWhile_append2) (simp add: list_all_iff)
  moreover have "takeWhile isValidNameChar rest = []" using assms(2) by (cases rest) auto
  ultimately show ?thesis
    using scanName_takeWhile [of n "replicate n SP @ name @ rest"] by simp
qed

lemma TrimRight_id: "v = [] \<or> \<not> P (last v) \<Longrightarrow> TrimRight v P = v"
  by (cases "rev v") (auto simp: TrimRight_def)

lemma scanComment_none:
  assumes "pos \<le> length line" and "\<forall>e. pos \<le> e \<and> e < length line \<longrightarrow> \<not> atComment line e"
  shows "scanComment line pos = length line"
proof -
  let ?e = "scanComment line pos"
  have ge: "pos \<le> ?e" by (rule scan_ge)
  have "?e = length line \<or> \<not> \<not> atComment line ?e"
    unfolding scanComment_def by (rule advance_stops [OF assms(1)])
  moreover have "?e \<le> length line" using assms(1) by (rule scan_le)
  ultimately show ?thesis using assms(2) ge by (cases "?e < length line") auto
qed

lemma parseAttrs_end: "length line \<le> pos \<Longrightarrow> parseAttrs line pos children = Inr children"
  by (subst parseAttrs_step) simp

lemma parseValue_serialized:
  assumes "val \<noteq> []" and "last val \<noteq> SP" and "\<not> hasSlashes val"
  shows "parseValue (pre @ '': '' @ val) (length pre) = Inr (val, length (pre @ '': '' @ val))"
proof -
  let ?line = "pre @ '': '' @ val"
  let ?p = "length pre"
  have colon: "?line ! ?p = CHR '':''" by (simp add: nth_append)
  have sp: "?line ! (?p + 1) = SP" by (simp add: nth_append SP_def)
  have lt: "?p < length ?line" by simp
  have start: "colonStart ?line ?p = ?p + 2" using sp assms(1) by (simp add: colonStart_def)
  have nth: "\<And>k. ?line ! (?p + 2 + k) = val ! k"
  proof -
    fix k
    have "?line = (pre @ '': '') @ val" by simp
    moreover have "length (pre @ '': '') = ?p + 2" by simp
    ultimately show "?line ! (?p + 2 + k) = val ! k" by (metis nth_append_length_plus)
  qed
  have nc: "\<forall>e. ?p + 2 \<le> e \<and> e < length ?line \<longrightarrow> \<not> atComment ?line e"
  proof (intro allI impI notI)
    fix e assume e: "?p + 2 \<le> e \<and> e < length ?line" and c: "atComment ?line e"
    from e obtain k where k: "e = ?p + 2 + k" using le_Suc_ex by blast
    from c have "e + 1 < length ?line" "?line ! e = CHR ''/''" "?line ! (e + 1) = CHR ''/''"
      by (simp_all add: atComment_iff)
    with k nth [of k] nth [of "k + 1"]
    have "k + 1 < length val \<and> val ! k = CHR ''/'' \<and> val ! (k + 1) = CHR ''/''"
      by (simp add: add.assoc)
    then have "hasSlashes val" unfolding hasSlashes_iff by blast
    with assms(3) show False by simp
  qed
  have "scanComment ?line (?p + 2) = length ?line"
    by (rule scanComment_none [OF _ nc]) simp
  moreover have "slice ?line (?p + 2) (length ?line) = val" by (simp add: slice_def)
  moreover have "TrimRight val (\<lambda>c. c = SP) = val" using assms(2) by (simp add: TrimRight_id)
  ultimately show ?thesis using parseValue_colon [OF lt colon] start by simp
qed

lemma validName_hd: "validName name \<Longrightarrow> name \<noteq> [] \<and> isValidNameChar (hd name)"
  by (cases name) (auto simp: validName_def)

lemma parseHeader_headerLine:
  assumes "validName name" and "plainValue val"
  shows "parseHeader (headerLine name val depth) (depth * 2) =
     Inr (Node name (if val \<noteq> [] \<and> \<not> Contains val LF then val else []) [])"
proof (cases "val \<noteq> [] \<and> \<not> Contains val LF")
  case False
  let ?line = "replicate (depth * 2) SP @ name"
  have l: "headerLine name val depth = ?line" using False by (auto simp: headerLine_def)
  have "scanName (replicate (depth * 2) SP @ name @ []) (depth * 2) = depth * 2 + length name"
    using assms(1) by (intro scanName_name) (simp_all add: validName_def)
  then have s: "scanName ?line (depth * 2) = depth * 2 + length name" by simp
  have ne: "scanName ?line (depth * 2) \<noteq> depth * 2" using s assms(1) by (simp add: validName_def)
  have sl: "slice ?line (depth * 2) (depth * 2 + length name) = name" by (simp add: slice_def)
  have c: "(if val \<noteq> [] \<and> \<not> Contains val LF then val else []) = []" using False by auto
  show ?thesis
    unfolding l c using ne
    by (subst parseHeader_step) (simp add: s sl parseAttrs_end)
next
  case True
  let ?pre = "replicate (depth * 2) SP @ name"
  let ?line = "?pre @ '': '' @ val"
  have l: "headerLine name val depth = ?line" using True by (simp add: headerLine_def)
  from True assms(2) have v: "val \<noteq> []" "last val \<noteq> SP" "\<not> hasSlashes val"
    by (auto simp: plainValue_def)
  have "scanName (replicate (depth * 2) SP @ name @ ('': '' @ val)) (depth * 2) =
      depth * 2 + length name"
    using assms(1) colon_no_name by (intro scanName_name) (simp_all add: validName_def)
  then have s: "scanName ?line (depth * 2) = depth * 2 + length name" by simp
  have ne: "scanName ?line (depth * 2) \<noteq> depth * 2" using s assms(1) by (simp add: validName_def)
  have lt: "scanName ?line (depth * 2) < length ?line" using s by simp
  have "parseValue ?line (length ?pre) = Inr (val, length ?line)"
    using v by (rule parseValue_serialized)
  then have pv: "parseValue ?line (depth * 2 + length name) = Inr (val, length ?line)" by simp
  have sl: "slice ?line (depth * 2) (depth * 2 + length name) = name" by (simp add: slice_def)
  have c: "(if val \<noteq> [] \<and> \<not> Contains val LF then val else []) = val" using True by simp
  have h: "parseHeader ?line (depth * 2) =
      (case (if scanName ?line (depth * 2) < length ?line
             then parseValue ?line (scanName ?line (depth * 2))
             else Inr ([], scanName ?line (depth * 2))) of
         Inl err \<Rightarrow> Inl err
       | Inr (val, pos2) \<Rightarrow>
           (case parseAttrs ?line pos2 [] of
              Inl err \<Rightarrow> Inl err
            | Inr children \<Rightarrow>
                Inr (Node (slice ?line (depth * 2) (scanName ?line (depth * 2))) val children)))"
    using ne by (subst parseHeader_step) simp
  show ?thesis
    unfolding l c h using lt by (simp only: s pv sl if_True) (simp add: parseAttrs_end)
qed

lemma headerLine_depth:
  "validName name \<Longrightarrow> readDepth (headerLine name val depth) = depth * 2"
proof -
  assume v: "validName name"
  then have "hd (name @ (if val \<noteq> [] \<and> \<not> Contains val LF then '': '' @ val else [])) = hd name"
    by (simp add: validName_def)
  with validName_hd [OF v] nameChar_no_space show ?thesis
    unfolding headerLine_def by (intro readDepth_indent) auto
qed

lemma headerLine_no_continuation:
  assumes "validName name"
  shows "\<not> HasPrefix (TrimLeft (headerLine name val depth) (\<lambda>c. c = SP \<or> c = TAB)) '':''"
proof -
  let ?rest = "name @ (if val \<noteq> [] \<and> \<not> Contains val LF then '': '' @ val else [])"
  have "drop (readDepth (headerLine name val depth)) (headerLine name val depth) = ?rest"
    using headerLine_depth [OF assms, of val depth] by (simp add: headerLine_def)
  moreover have "hd ?rest = hd name" "?rest \<noteq> []" using assms by (simp_all add: validName_def)
  moreover have "hd name \<noteq> CHR '':''" using validName_hd [OF assms] colon_no_name by auto
  ultimately show ?thesis
    by (cases ?rest) (auto simp: readDepth_TrimLeft HasPrefix_def)
qed

lemma Split_noSep: "sep \<notin> set s \<Longrightarrow> Split s sep = [s]"
  by (induction s) auto

lemma Split_parts: "l \<in> set (Split s sep) \<Longrightarrow> set l \<subseteq> set s \<and> sep \<notin> set l"
proof (induction s arbitrary: l)
  case Nil
  then show ?case by simp
next
  case (Cons c cs)
  show ?case
  proof (cases "c = sep")
    case True
    with Cons show ?thesis by auto
  next
    case False
    obtain p ps where ps: "Split cs sep = p # ps" using Split_nonempty by (cases "Split cs sep") auto
    with False Cons.prems have "l = c # p \<or> l \<in> set ps" by simp
    then show ?thesis
    proof
      assume "l = c # p"
      with Cons.IH [of p] ps False show ?thesis by auto
    next
      assume "l \<in> set ps"
      with Cons.IH [of l] ps show ?thesis by auto
    qed
  qed
qed

lemma joinValue_Split:
  "v \<noteq> [] \<Longrightarrow> foldl joinValue v (Split s LF) = v @ [LF] @ s"
proof (induction s arbitrary: v rule: length_induct)
  case (1 s)
  show ?case
  proof (cases "LF \<in> set s")
    case False
    with 1(2) show ?thesis by (simp add: Split_noSep joinValue_def)
  next
    case True
    then obtain p rest where s: "s = p @ LF # rest" "LF \<notin> set p"
      by (auto dest: split_list_first)
    then have "foldl joinValue v (Split s LF) = foldl joinValue (v @ [LF] @ p) (Split rest LF)"
      using 1(2) by (simp add: Split_line joinValue_def)
    also have "\<dots> = (v @ [LF] @ p) @ [LF] @ rest"
      using 1(1) s(1) by simp
    finally show ?thesis using s(1) by simp
  qed
qed

lemma joinValue_Split_empty:
  assumes "s \<noteq> []" and "hd s \<noteq> LF"
  shows "foldl joinValue [] (Split s LF) = s"
proof (cases "LF \<in> set s")
  case False
  then show ?thesis by (simp add: Split_noSep joinValue_def)
next
  case True
  then obtain p rest where s: "s = p @ LF # rest" "LF \<notin> set p"
    by (auto dest: split_list_first)
  with assms have p: "p \<noteq> []" by (cases p) auto
  have "foldl joinValue [] (Split s LF) = foldl joinValue p (Split rest LF)"
    using s by (simp add: Split_line joinValue_def)
  also have "\<dots> = p @ [LF] @ rest" using p by (rule joinValue_Split)
  finally show ?thesis using s(1) by simp
qed

lemma continuation_line:
  "readDepth (replicate n SP @ '': '' @ p) = n \<and>
   continuationText (replicate n SP @ '': '' @ p) = Some p"
proof -
  have d: "dropWhile (\<lambda>c. c = SP \<or> c = TAB) (replicate n SP @ '': '' @ p) = '': '' @ p"
  proof -
    have "dropWhile (\<lambda>c. c = SP \<or> c = TAB) (replicate n SP @ '': '' @ p) =
        dropWhile (\<lambda>c. c = SP \<or> c = TAB) ('': '' @ p)"
      by (rule dropWhile_append2) simp
    then show ?thesis by (simp add: SP_def TAB_def)
  qed
  have "readDepth (replicate n SP @ ('': '' @ p)) = n"
    by (rule readDepth_indent) (simp add: SP_def TAB_def)
  moreover have "continuationText (replicate n SP @ '': '' @ p) = Some p"
    unfolding continuationText_def d by (simp add: SP_def)
  ultimately show ?thesis by simp
qed

lemma valueLines_parse:
  assumes "val \<noteq> []" and "Contains val LF" and "hd val \<noteq> LF"
    and "Value node = []"
  shows "parseChildren (pre @ valueLines val depth @ post) (length pre) (depth * 2) node =
     parseChildren (pre @ valueLines val depth @ post) (length pre + length (valueLines val depth))
       (depth * 2) (Node (Name node) val (Children node))"
proof -
  let ?cs = "Split val LF"
  let ?vl = "valueLines val depth"
  let ?lines = "pre @ ?vl @ post"
  have vl: "?vl = map (\<lambda>line. replicate ((depth + 1) * 2) SP @ '': '' @ line) ?cs"
    using assms(1,2) by (simp add: valueLines_def)
  have len: "length ?vl = length ?cs" by (simp add: vl)
  have "length pre + length ?cs \<le> length ?lines" by (simp add: len)
  moreover have "\<forall>i < length ?cs. depth * 2 < readDepth (?lines ! (length pre + i)) \<and>
       continuationText (?lines ! (length pre + i)) = Some (?cs ! i)"
  proof (intro allI impI)
    fix i assume i: "i < length ?cs"
    then have "?lines ! (length pre + i) = ?vl ! i" by (simp add: nth_append len)
    also have "\<dots> = replicate ((depth + 1) * 2) SP @ '': '' @ ?cs ! i" using i by (simp add: vl)
    finally show "depth * 2 < readDepth (?lines ! (length pre + i)) \<and>
       continuationText (?lines ! (length pre + i)) = Some (?cs ! i)"
      using continuation_line [of "(depth + 1) * 2" "?cs ! i"] by simp
  qed
  ultimately have "parseChildren ?lines (length pre) (depth * 2) node =
     parseChildren ?lines (length pre + length ?cs) (depth * 2)
       (Node (Name node) (foldl joinValue (Value node) ?cs) (Children node))"
    by (rule parseChildren_continuations)
  moreover have "foldl joinValue (Value node) ?cs = val"
    using assms(1,3,4) by (simp add: joinValue_Split_empty)
  ultimately show ?thesis by (simp add: len)
qed

lemma nodeLines_hd:
  "nodeLines n depth \<noteq> [] \<and> hd (nodeLines n depth) = headerLine (Name n) (Value n) depth"
  by (cases n) (simp add: nodeLines_eq)

lemma parsedTree_sel:
  "parsedTree n \<longleftrightarrow>
     validName (Name n) \<and> parsedValue (Value n) \<and> list_all parsedTree (Children n)"
  by (cases n) simp

lemma plainTree_sel: "plainTree n \<longleftrightarrow> plainValue (Value n) \<and> list_all plainTree (Children n)"
  by (cases n) simp

text \<open>The child loop reads back the lines of a list of children, given that each child does.\<close>

lemma children_parse:
  assumes IH: "\<And>c pre post pd. c \<in> set cs \<Longrightarrow>
      post = [] \<or> readDepth (hd post) \<le> Suc depth * 2 \<Longrightarrow>
      \<not> (int (Suc depth * 2) \<le> pd \<and> 0 \<le> pd) \<Longrightarrow>
      parseNode (pre @ nodeLines c (Suc depth) @ post) (length pre) pd =
        Inr (c, length pre + length (nodeLines c (Suc depth)))"
    and names: "\<forall>c \<in> set cs. validName (Name c)"
    and post: "post = [] \<or> readDepth (hd post) \<le> depth * 2"
  shows "parseChildren (pre @ concat (map (\<lambda>c. nodeLines c (Suc depth)) cs) @ post)
      (length pre) (depth * 2) node =
     Inr (Node (Name node) (Value node) (Children node @ cs),
          length pre + length (concat (map (\<lambda>c. nodeLines c (Suc depth)) cs)))"
  using IH names
proof (induction cs arbitrary: pre node)
  case Nil
  let ?lines = "pre @ post"
  have "\<not> (length pre < length ?lines \<and> depth * 2 < readDepth (?lines ! length pre))"
  proof (cases post)
    case Nil
    then show ?thesis by simp
  next
    case (Cons l ls)
    with post have "readDepth l \<le> depth * 2" by simp
    with Cons show ?thesis by (simp add: nth_append)
  qed
  then have "parseChildren ?lines (length pre) (depth * 2) node = Inr (node, length pre)"
    by (subst parseChildren_step) auto
  then show ?case by simp
next
  case (Cons c cs)
  let ?cl = "nodeLines c (Suc depth)"
  let ?rest = "concat (map (\<lambda>c. nodeLines c (Suc depth)) cs)"
  let ?lines = "pre @ concat (map (\<lambda>c. nodeLines c (Suc depth)) (c # cs)) @ post"
  let ?hl = "headerLine (Name c) (Value c) (Suc depth)"
  have lines: "?lines = pre @ ?cl @ (?rest @ post)" by simp
  have vn: "validName (Name c)" using Cons.prems(2) by simp
  have cl: "?cl \<noteq> []" "hd ?cl = ?hl" using nodeLines_hd [of c "Suc depth"] by simp_all
  then have first: "?lines ! length pre = ?hl" "length pre < length ?lines"
    by (cases ?cl; simp add: nth_append)+
  have d: "readDepth ?hl = Suc depth * 2" using vn by (rule headerLine_depth)
  have nc: "\<not> HasPrefix (TrimLeft ?hl (\<lambda>c. c = SP \<or> c = TAB)) '':''"
    using vn by (rule headerLine_no_continuation)
  have post': "?rest @ post = [] \<or> readDepth (hd (?rest @ post)) \<le> Suc depth * 2"
  proof (cases cs)
    case Nil
    with post show ?thesis by auto
  next
    case (Cons c' cs')
    then have "validName (Name c')" using Cons.prems(2) \<open>\<forall>c\<in>set (c # cs). validName (Name c)\<close>
      by simp
    then have "readDepth (headerLine (Name c') (Value c') (Suc depth)) = Suc depth * 2"
      by (rule headerLine_depth)
    moreover have "hd (?rest @ post) = headerLine (Name c') (Value c') (Suc depth)"
      using Cons nodeLines_hd [of c' "Suc depth"] by (cases "nodeLines c' (Suc depth)") simp_all
    ultimately show ?thesis by simp
  qed
  have pn: "parseNode ?lines (length pre) (int (depth * 2)) = Inr (c, length pre + length ?cl)"
    unfolding lines by (rule Cons.prems(1) [OF _ post']) simp_all
  have "parseChildren ?lines (length pre) (depth * 2) node =
      parseChildren ?lines (length pre + length ?cl) (depth * 2)
        (Node (Name node) (Value node) (Children node @ [c]))"
    using first d nc pn by (subst parseChildren_step) simp
  also have "\<dots> = parseChildren ((pre @ ?cl) @ ?rest @ post) (length (pre @ ?cl)) (depth * 2)
        (Node (Name node) (Value node) (Children node @ [c]))"
    by simp
  also have "\<dots> = Inr (Node (Name node) (Value node) ((Children node @ [c]) @ cs),
          length (pre @ ?cl) + length ?rest)"
    using Cons.IH [of "pre @ ?cl" "Node (Name node) (Value node) (Children node @ [c])"]
      Cons.prems by simp
  finally show ?case by simp
qed

end
